theory Spec2Isabelle
  imports Main "HOL-Library.AList"
begin

section \<open>Python values used by the stream handler\<close>

text \<open>
  Python's truthiness of an optional string: \<open>None\<close> and the empty string are falsy.
  \<open>str_or x d\<close> is the Python expression \<open>x or d\<close> for an optional string \<open>x\<close>.
\<close>

fun truthy :: "string option \<Rightarrow> bool" where
  "truthy None = False"
| "truthy (Some s) = (s \<noteq> [])"

fun str_or :: "string option \<Rightarrow> string \<Rightarrow> string" where
  "str_or None d = d"
| "str_or (Some s) d = (if s = [] then d else s)"

text \<open>
  Decimal rendering of integers, as the f-strings \<open>f"idx_{call_index}"\<close> and
  \<open>f"call_{idx}"\<close> in \<open>_collect_tool_calls\<close> produce it.
\<close>

definition digit_char :: "nat \<Rightarrow> char" where
  "digit_char d = char_of (48 + d)"

fun str_nat :: "nat \<Rightarrow> string" where
  "str_nat n = (if n < 10 then [digit_char n] else str_nat (n div 10) @ [digit_char (n mod 10)])"

declare str_nat.simps [simp del]

definition str_int :: "int \<Rightarrow> string" where
  "str_int i = (if i < 0 then CHR ''-'' # str_nat (nat (- i)) else str_nat (nat i))"

section \<open>Tool-call fragments and \<open>ToolCallBuilder\<close> (stream\_handler.py)\<close>

text \<open>
  One partial tool call of a delta. The source accepts a dict or an object with attributes;
  \<open>is_dict\<close> records which, since \<open>ToolCallBuilder.update\<close> treats them differently.
  A field that is absent or \<open>None\<close> is \<open>None\<close> here.
\<close>

record function_delta =
  fn_name :: "string option"
  fn_arguments :: "string option"

record call_delta =
  is_dict :: bool
  call_id :: "string option"
  call_type :: "string option"
  call_index :: "int option"
  call_function :: "function_delta option"

text \<open>The dataclass \<open>ToolCallBuilder\<close>; \<open>id\<close>, \<open>index\<close> and \<open>type\<close> carry the prefix \<open>b_\<close>.\<close>

record ToolCallBuilder =
  b_id :: string
  b_index :: "int option"
  b_type :: string
  function_name :: string
  arguments :: "string list"

text \<open>The name and the argument text a fragment carries (\<open>None\<close> when its function part is missing).\<close>

definition delta_name :: "call_delta \<Rightarrow> string option" where
  "delta_name delta = (case call_function delta of None \<Rightarrow> None | Some fn \<Rightarrow> fn_name fn)"

definition delta_args :: "call_delta \<Rightarrow> string option" where
  "delta_args delta = (case call_function delta of None \<Rightarrow> None | Some fn \<Rightarrow> fn_arguments fn)"

text \<open>
  The part of \<open>update\<close> both branches share: the identifier and the index are taken over only
  while the builder has none.
\<close>

definition update_id_index :: "ToolCallBuilder \<Rightarrow> call_delta \<Rightarrow> ToolCallBuilder" where
  "update_id_index self delta =
     (let self1 = (if b_id self = [] \<and> truthy (call_id delta)
                   then self\<lparr>b_id := str_or (call_id delta) (b_id self)\<rparr> else self)
      in (if b_index self1 = None \<and> call_index delta \<noteq> None
          then self1\<lparr>b_index := call_index delta\<rparr> else self1))"

definition update_name_args :: "ToolCallBuilder \<Rightarrow> string option \<Rightarrow> string option \<Rightarrow> ToolCallBuilder" where
  "update_name_args self name args =
     (let self1 = (if truthy name then self\<lparr>function_name := str_or name (function_name self)\<rparr> else self)
      in (case args of
            None \<Rightarrow> self1
          | Some a \<Rightarrow> (if a = [] then self1 else self1\<lparr>arguments := arguments self1 @ [a]\<rparr>)))"

text \<open>
  \<open>ToolCallBuilder.update\<close>. A dict delta always updates identifier and index and reads
  \<open>delta.get("function", {}) or {}\<close>; an object delta is looked at only when its
  \<open>function\<close> attribute is truthy.
\<close>

definition update :: "ToolCallBuilder \<Rightarrow> call_delta \<Rightarrow> ToolCallBuilder" where
  "update self delta =
     (if is_dict delta
      then update_name_args (update_id_index self delta) (delta_name delta) (delta_args delta)
      else (case call_function delta of
              None \<Rightarrow> self
            | Some fn \<Rightarrow> update_name_args (update_id_index self delta) (fn_name fn) (fn_arguments fn)))"

text \<open>The finalized Tool-Call Request, the dict \<open>to_dict\<close> returns.\<close>

record tool_call =
  tc_id :: string
  tc_type :: string
  tc_name :: string
  tc_arguments :: string

definition to_dict :: "ToolCallBuilder \<Rightarrow> tool_call" where
  "to_dict self =
     \<lparr>tc_id = (if b_id self = [] then ''call'' else b_id self),
      tc_type = b_type self,
      tc_name = (if function_name self = [] then ''unknown_function'' else function_name self),
      tc_arguments = concat (arguments self)\<rparr>"

section \<open>\<open>_collect_tool_calls\<close>\<close>

text \<open>
  The dict \<open>tool_calls\<close> keeps insertion order, so it is an association list: a new key is
  appended, an existing key keeps its place.
\<close>

type_synonym builders = "(string \<times> ToolCallBuilder) list"

text \<open>The loop over \<open>tool_calls.items()\<close> that stops at the first builder with the given index.\<close>

fun find_by_index :: "builders \<Rightarrow> int \<Rightarrow> string option" where
  "find_by_index [] i = None"
| "find_by_index ((existing_key, builder) # rest) i =
     (if b_index builder = Some i then Some existing_key else find_by_index rest i)"

definition idx_key :: "int \<Rightarrow> string" where
  "idx_key i = ''idx_'' @ str_int i"

definition ordinal_key :: "nat \<Rightarrow> string" where
  "ordinal_key idx = ''call_'' @ str_nat idx"

text \<open>The three statements that compute \<open>key\<close>, in the order of the source.\<close>

definition resolve_key :: "builders \<Rightarrow> nat \<Rightarrow> call_delta \<Rightarrow> string" where
  "resolve_key tcs idx call =
     (let key = call_id call;
          key = (case (key, call_index call) of
                   (None, Some i) \<Rightarrow> find_by_index tcs i
                 | _ \<Rightarrow> key)
      in (case key of
            Some k \<Rightarrow> k
          | None \<Rightarrow> (case call_index call of Some i \<Rightarrow> idx_key i | None \<Rightarrow> ordinal_key idx)))"

definition new_builder :: "string \<Rightarrow> call_delta \<Rightarrow> ToolCallBuilder" where
  "new_builder key call =
     \<lparr>b_id = str_or (call_id call) key,
      b_index = call_index call,
      b_type = str_or (call_type call) ''function'',
      function_name = [],
      arguments = []\<rparr>"

text \<open>One iteration of the loop over \<open>enumerate(calls)\<close>.\<close>

definition collect_call :: "builders \<Rightarrow> nat \<Rightarrow> call_delta \<Rightarrow> builders" where
  "collect_call tcs idx call =
     (let key = resolve_key tcs idx call;
          tcs1 = (if map_of tcs key = None then tcs @ [(key, new_builder key call)] else tcs)
      in AList.map_entry key (\<lambda>builder. update builder call) tcs1)"

fun collect_calls :: "builders \<Rightarrow> nat \<Rightarrow> call_delta list \<Rightarrow> builders" where
  "collect_calls tcs idx [] = tcs"
| "collect_calls tcs idx (call # calls) = collect_calls (collect_call tcs idx call) (Suc idx) calls"

section \<open>Chunks, choices and deltas\<close>

text \<open>
  A reasoning value as the transport may deliver it: \<open>None\<close>, a string, or a list whose
  elements are given by their \<open>str()\<close> rendering. The attributes of an object that the
  handler probes by name are an association list; a name that is not in it is an attribute
  the object does not have.
\<close>

datatype thinking_value = TNone | TStr string | TList "string list"

type_synonym attrs = "(string \<times> thinking_value) list"

text \<open>
  An element of a list-valued \<open>content\<close>: a string, a dict or object whose text is given
  (a dict without \<open>"text"\<close> has the text \<open>""\<close>), or anything else, which is left out.
\<close>

datatype content_part = PStr string | PText string | POther

datatype content_value = CNone | CStr string | CList "content_part list"

record delta =
  delta_attrs :: attrs
  delta_content :: content_value
  tool_calls :: "call_delta list option"

record choice =
  choice_delta :: delta
  finish_reason :: "string option"
  choice_attrs :: attrs

record chunk =
  choices :: "choice list"
  chunk_attrs :: attrs

section \<open>Events of the stream handler\<close>

text \<open>
  The handler reports through five callbacks. Their calls, in order, are the list of events
  that \<open>handle_stream\<close> returns here; \<open>Debug\<close> is a call of \<open>on_debug\<close>.
\<close>

datatype debug_message =
    NoChoices
  | ThinkingDelta thinking_value
  | ToolCallsDelta nat
  | FinishReason string

datatype event =
    Thinking string
  | Content string
  | ToolCall tool_call
  | Finish string
  | Debug debug_message

text \<open>Which of the optional callbacks \<open>on_finish\<close> and \<open>on_debug\<close> the handler was given.\<close>

record callbacks =
  has_on_finish :: bool
  has_on_debug :: bool

fun thinking_truthy :: "thinking_value \<Rightarrow> bool" where
  "thinking_truthy TNone = False"
| "thinking_truthy (TStr s) = (s \<noteq> [])"
| "thinking_truthy (TList l) = (l \<noteq> [])"

definition thinking_fields :: "string list" where
  "thinking_fields = [''thinking'', ''reasoning'', ''reasoning_content'', ''internal_monologue'']"

text \<open>
  One of the loops over the field names in \<open>_emit_thinking\<close>: the first attribute that is
  present and truthy. (A falsy value that the loop leaves in \<open>thinking\<close> is treated like
  \<open>None\<close> by every later test.)
\<close>

fun probe :: "attrs \<Rightarrow> string list \<Rightarrow> thinking_value option" where
  "probe a [] = None"
| "probe a (field_name # rest) =
     (case map_of a field_name of
        None \<Rightarrow> probe a rest
      | Some v \<Rightarrow> (if thinking_truthy v then Some v else probe a rest))"

fun thinking_text :: "thinking_value \<Rightarrow> string" where
  "thinking_text TNone = []"
| "thinking_text (TStr s) = s"
| "thinking_text (TList l) = concat l"

text \<open>
  \<open>_emit_thinking\<close>: delta first, then the choice, then the chunk. The delta is an object
  here, so the branch for a dict-like delta does not apply.
\<close>

definition emit_thinking :: "delta \<Rightarrow> choice \<Rightarrow> chunk \<Rightarrow> event list" where
  "emit_thinking d c ch =
     (let thinking = probe (delta_attrs d) thinking_fields;
          thinking = (case thinking of None \<Rightarrow> probe (choice_attrs c) thinking_fields | Some v \<Rightarrow> Some v);
          thinking = (case thinking of None \<Rightarrow> probe (chunk_attrs ch) thinking_fields | Some v \<Rightarrow> Some v)
      in (case thinking of
            None \<Rightarrow> []
          | Some v \<Rightarrow> (if thinking_text v = [] then [] else [Thinking (thinking_text v)])))"

fun part_text :: "content_part \<Rightarrow> string" where
  "part_text (PStr s) = s"
| "part_text (PText s) = s"
| "part_text POther = []"

text \<open>\<open>_emit_content\<close>.\<close>

definition emit_content :: "delta \<Rightarrow> event list" where
  "emit_content d =
     (case delta_content d of
        CNone \<Rightarrow> []
      | CStr s \<Rightarrow> (if s = [] then [] else [Content s])
      | CList parts \<Rightarrow>
          (if parts = [] then []
           else (let text = concat (map part_text parts)
                 in (if text = [] then [] else [Content text]))))"

text \<open>\<open>_collect_tool_calls\<close>: nothing happens when \<open>delta.tool_calls\<close> is missing or empty.\<close>

definition collect_tool_calls :: "delta \<Rightarrow> builders \<Rightarrow> builders" where
  "collect_tool_calls d tcs =
     (case tool_calls d of
        None \<Rightarrow> tcs
      | Some calls \<Rightarrow> (if calls = [] then tcs else collect_calls tcs 0 calls))"

text \<open>\<open>_emit_tool_calls\<close>: one \<open>on_tool_call\<close> per builder, in the order of the dict.\<close>

definition emit_tool_calls :: "builders \<Rightarrow> event list" where
  "emit_tool_calls tcs = map (\<lambda>builder. ToolCall (to_dict builder)) (map snd tcs)"

text \<open>The messages the debug block logs for a chunk with a first choice.\<close>

definition debug_events :: "delta \<Rightarrow> choice \<Rightarrow> event list" where
  "debug_events d c =
     (case map_of (delta_attrs d) ''thinking'' of
        None \<Rightarrow> []
      | Some v \<Rightarrow> (if thinking_truthy v then [Debug (ThinkingDelta v)] else []))
     @ (case tool_calls d of
          None \<Rightarrow> []
        | Some calls \<Rightarrow> (if calls = [] then [] else [Debug (ToolCallsDelta (length calls))]))
     @ (if truthy (finish_reason c) then [Debug (FinishReason (str_or (finish_reason c) []))] else [])"

text \<open>
  What the end of the loop body does with \<open>choice.finish_reason\<close>: nothing when it is falsy;
  otherwise the batch of tool calls when it is \<open>"tool_calls"\<close>, then \<open>on_finish\<close>, then
  \<open>tool_calls.clear()\<close>.
\<close>

definition finish_chunk :: "callbacks \<Rightarrow> string option \<Rightarrow> builders \<Rightarrow> event list \<times> builders" where
  "finish_chunk cb reason tcs =
     (if truthy reason
      then ((if reason = Some ''tool_calls'' then emit_tool_calls tcs else [])
            @ (if has_on_finish cb then [Finish (str_or reason [])] else []), [])
      else ([], tcs))"

text \<open>The body of the loop \<open>for chunk in stream\<close>: the events it emits and the builders after it.\<close>

definition handle_chunk :: "callbacks \<Rightarrow> chunk \<Rightarrow> builders \<Rightarrow> event list \<times> builders" where
  "handle_chunk cb ch tcs =
     (case choices ch of
        [] \<Rightarrow> ((if has_on_debug cb then [Debug NoChoices] else []), tcs)
      | c # others \<Rightarrow>
          (let d = choice_delta c;
               dbg = (if has_on_debug cb then debug_events d c else []);
               tcs1 = collect_tool_calls d tcs;
               (fin, tcs2) = finish_chunk cb (finish_reason c) tcs1
           in (dbg @ emit_thinking d c ch @ emit_content d @ fin, tcs2)))"

fun handle_chunks :: "callbacks \<Rightarrow> builders \<Rightarrow> chunk list \<Rightarrow> event list" where
  "handle_chunks cb tcs [] = []"
| "handle_chunks cb tcs (ch # stream) =
     (case handle_chunk cb ch tcs of (evs, tcs') \<Rightarrow> evs @ handle_chunks cb tcs' stream)"

text \<open>\<open>handle_stream\<close> starts from an empty dict of builders.\<close>

definition handle_stream :: "callbacks \<Rightarrow> chunk list \<Rightarrow> event list" where
  "handle_stream cb stream = handle_chunks cb [] stream"

section \<open>The tool registry (tools/registry.py)\<close>

text \<open>
  Decoded JSON. A tool is the function its \<open>execute\<close> method computes on the keyword
  arguments: it returns a JSON value or raises.
\<close>

datatype json =
    JObject "(string \<times> json) list"
  | JArray "json list"
  | JString string
  | JNumber int
  | JBool bool
  | JNull

datatype error =
    KeyError string
  | TypeError
  | ToolError string

type_synonym tool = "(string \<times> json) list \<Rightarrow> error + json"

type_synonym registry = "string \<rightharpoonup> tool"

text \<open>\<open>ToolRegistry.register\<close>: the entry for the tool's name is set, replacing an earlier one.\<close>

definition register :: "registry \<Rightarrow> string \<Rightarrow> tool \<Rightarrow> registry" where
  "register tools name t = tools(name \<mapsto> t)"

text \<open>\<open>ToolRegistry.execute\<close>: \<open>KeyError\<close> for a name that is not registered.\<close>

definition execute :: "registry \<Rightarrow> string \<Rightarrow> (string \<times> json) list \<Rightarrow> error + json" where
  "execute tools name kwargs =
     (case tools name of
        None \<Rightarrow> Inl (KeyError name)
      | Some t \<Rightarrow> t kwargs)"

section \<open>The conversation loop (bot.py)\<close>

datatype message =
    SystemMessage string
  | UserMessage string
  | AssistantMessage string
  | AssistantToolCalls "tool_call list"
  | ToolMessage string string string

text \<open>
  What the loop uses from outside the repository: the registry, \<open>json.loads\<close> (\<open>None\<close> is
  \<open>JSONDecodeError\<close>), \<open>json.dumps\<close>, the debug flag, and the transport, which answers a
  history with the chunks of one streamed response.
\<close>

record env =
  tools :: registry
  json_loads :: "string \<Rightarrow> json option"
  json_dumps :: "json \<Rightarrow> string"
  debug :: bool

text \<open>
  \<open>json.loads(fn["arguments"] or "{}")\<close> with the handler for \<open>JSONDecodeError\<close>: an empty
  argument string is the text \<open>{}\<close>, whose value is the empty object.
\<close>

definition parse_arguments :: "env \<Rightarrow> string \<Rightarrow> json" where
  "parse_arguments e a =
     (if a = [] then JObject []
      else (case json_loads e a of None \<Rightarrow> JObject [] | Some v \<Rightarrow> v))"

text \<open>
  The call \<open>registry.execute(name, **args)\<close>: \<open>**\<close> needs a mapping, and a key
  \<open>name\<close> or \<open>self\<close> collides with a parameter of \<open>execute\<close>; both raise \<open>TypeError\<close>
  before the registry is entered.
\<close>

definition dispatch :: "env \<Rightarrow> tool_call \<Rightarrow> error + json" where
  "dispatch e call =
     (case parse_arguments e (tc_arguments call) of
        JObject kwargs \<Rightarrow>
          (if map_of kwargs ''name'' \<noteq> None \<or> map_of kwargs ''self'' \<noteq> None
           then Inl TypeError
           else execute (tools e) (tc_name call) kwargs)
      | _ \<Rightarrow> Inl TypeError)"

definition tool_message :: "env \<Rightarrow> tool_call \<Rightarrow> json \<Rightarrow> message" where
  "tool_message e call result = ToolMessage (tc_id call) (tc_name call) (json_dumps e result)"

text \<open>
  \<open>_execute_tool_calls\<close>. The first component lists the calls handed to the dispatch, in
  order; the second is the error that leaves the function or the list \<open>messages\<close>.
\<close>

fun execute_tool_calls :: "env \<Rightarrow> tool_call list \<Rightarrow> tool_call list \<times> (error + message list)" where
  "execute_tool_calls e [] = ([], Inr [])"
| "execute_tool_calls e (call # calls) =
     (case dispatch e call of
        Inl err \<Rightarrow> ([call], Inl err)
      | Inr result \<Rightarrow>
          (case execute_tool_calls e calls of
             (dispatched, Inl err) \<Rightarrow> (call # dispatched, Inl err)
           | (dispatched, Inr messages) \<Rightarrow>
               (call # dispatched, Inr (tool_message e call result # messages))))"

text \<open>\<open>_format_assistant_tool_message\<close> copies the four fields of every call.\<close>

definition format_assistant_tool_message :: "tool_call list \<Rightarrow> message" where
  "format_assistant_tool_message calls =
     AssistantToolCalls
       (map (\<lambda>call. \<lparr>tc_id = tc_id call, tc_type = tc_type call,
                      tc_name = tc_name call, tc_arguments = tc_arguments call\<rparr>) calls)"

text \<open>
  The local state of one pass of \<open>while True\<close>, updated by the callbacks \<open>_on_content\<close>,
  \<open>_on_tool_call\<close> and \<open>_on_finish\<close>; \<open>console\<close> is what the callbacks print.
\<close>

datatype console_line = ThinkingOut string | ContentOut string | ToolPanel string | LogLine debug_message

record round_state =
  assistant_chunks :: "string list"
  round_tool_calls :: "tool_call list"
  round_finish_reason :: "string option"
  has_tool_calls :: bool
  console :: "console_line list"

definition initial_round :: round_state where
  "initial_round =
     \<lparr>assistant_chunks = [], round_tool_calls = [], round_finish_reason = None,
      has_tool_calls = False, console = []\<rparr>"

fun on_event :: "round_state \<Rightarrow> event \<Rightarrow> round_state" where
  "on_event st (Thinking text) = st\<lparr>console := console st @ [ThinkingOut text]\<rparr>"
| "on_event st (Content text) =
     st\<lparr>assistant_chunks := assistant_chunks st @ [text],
        console := (if has_tool_calls st then console st else console st @ [ContentOut text])\<rparr>"
| "on_event st (ToolCall call) =
     st\<lparr>has_tool_calls := True,
        round_tool_calls := round_tool_calls st @ [call],
        console := console st @ [ToolPanel (tc_name call)]\<rparr>"
| "on_event st (Finish reason) = st\<lparr>round_finish_reason := Some reason\<rparr>"
| "on_event st (Debug m) = st\<lparr>console := console st @ [LogLine m]\<rparr>"

definition bot_callbacks :: "env \<Rightarrow> callbacks" where
  "bot_callbacks e = \<lparr>has_on_finish = True, has_on_debug = debug e\<rparr>"

text \<open>The state after \<open>handler.handle_stream(stream)\<close> has returned.\<close>

definition run_stream :: "env \<Rightarrow> chunk list \<Rightarrow> round_state" where
  "run_stream e stream = foldl on_event initial_round (handle_stream (bot_callbacks e) stream)"

text \<open>
  How one pass of the loop ends: with \<open>continue\<close>, with \<open>return content\<close> (the answer), or with an
  exception that leaves \<open>send_message\<close>.
\<close>

datatype outcome = Continue | Return string | Raise error

record round_result =
  history :: "message list"
  dispatched :: "tool_call list"
  result :: outcome

text \<open>
  The body of \<open>while True\<close> from \<open>handle_stream\<close> on, for the history before the pass and
  the stream the transport returned. The history is mutated in place, so an exception leaves
  what was appended before it.
\<close>

definition round_step :: "env \<Rightarrow> message list \<Rightarrow> chunk list \<Rightarrow> round_result" where
  "round_step e hist stream =
     (let st = run_stream e stream
      in (if round_tool_calls st \<noteq> [] \<or> round_finish_reason st = Some ''tool_calls''
          then (let hist1 = hist @ [format_assistant_tool_message (round_tool_calls st)]
                in (case execute_tool_calls e (round_tool_calls st) of
                      (d, Inl err) \<Rightarrow> \<lparr>history = hist1, dispatched = d, result = Raise err\<rparr>
                    | (d, Inr messages) \<Rightarrow>
                        \<lparr>history = hist1 @ messages, dispatched = d, result = Continue\<rparr>))
          else (let answer = concat (assistant_chunks st)
                in \<lparr>history = hist @ [AssistantMessage answer], dispatched = [],
                    result = Return answer\<rparr>)))"

text \<open>
  \<open>while True\<close> with fuel: \<open>None\<close> when the passes allowed are used up before the loop
  returns or raises. \<open>client\<close> is \<open>self.client.chat.completions.create\<close> on the history.
\<close>

fun rounds :: "nat \<Rightarrow> env \<Rightarrow> (message list \<Rightarrow> chunk list) \<Rightarrow> message list \<Rightarrow> (message list \<times> outcome) option" where
  "rounds 0 e client hist = None"
| "rounds (Suc n) e client hist =
     (let r = round_step e hist (client hist)
      in (case result r of
            Continue \<Rightarrow> rounds n e client (history r)
          | Return answer \<Rightarrow> Some (history r, Return answer)
          | Raise err \<Rightarrow> Some (history r, Raise err)))"

text \<open>\<open>send_message\<close> appends the user's message and enters the loop.\<close>

definition send_message :: "nat \<Rightarrow> env \<Rightarrow> (message list \<Rightarrow> chunk list) \<Rightarrow> message list \<Rightarrow> string \<Rightarrow> (message list \<times> outcome) option" where
  "send_message fuel e client hist user_input = rounds fuel e client (hist @ [UserMessage user_input])"

section \<open>Notions used to state the properties\<close>

text \<open>The Tool-Call Requests among the events, in the order \<open>on_tool_call\<close> received them.\<close>

fun requests_of :: "event list \<Rightarrow> tool_call list" where
  "requests_of [] = []"
| "requests_of (ToolCall c # evs) = c # requests_of evs"
| "requests_of (_ # evs) = requests_of evs"

text \<open>The non-empty names and the non-empty argument texts of a sequence of fragments, in order.\<close>

definition fragment_names :: "call_delta list \<Rightarrow> string list" where
  "fragment_names ds =
     concat (map (\<lambda>d. case delta_name d of None \<Rightarrow> [] | Some n \<Rightarrow> (if n = [] then [] else [n])) ds)"

definition fragment_args :: "call_delta list \<Rightarrow> string list" where
  "fragment_args ds =
     concat (map (\<lambda>d. case delta_args d of None \<Rightarrow> [] | Some a \<Rightarrow> (if a = [] then [] else [a])) ds)"

text \<open>
  The resolution order of the correlation key as the specification words it: the identifier
  if present; else the key of an existing accumulator whose stored index matches; else a key
  made from the index; else a key made from the ordinal position in the batch.
\<close>

definition correlation_key :: "builders \<Rightarrow> nat \<Rightarrow> call_delta \<Rightarrow> string" where
  "correlation_key tcs idx call =
     (case call_id call of
        Some ident \<Rightarrow> ident
      | None \<Rightarrow>
          (case call_index call of
             Some i \<Rightarrow>
               (case find (\<lambda>(k, builder). b_index builder = Some i) tcs of
                  Some (k, builder) \<Rightarrow> k
                | None \<Rightarrow> idx_key i)
           | None \<Rightarrow> ordinal_key idx))"

subsection \<open>Reading the events of a round\<close>

text \<open>The answer-text increments among the events, in order.\<close>

fun contents_of :: "event list \<Rightarrow> string list" where
  "contents_of [] = []"
| "contents_of (Content text # evs) = text # contents_of evs"
| "contents_of (_ # evs) = contents_of evs"

text \<open>The finish reasons passed to \<open>on_finish\<close>, in order.\<close>

fun finishes_of :: "event list \<Rightarrow> string list" where
  "finishes_of [] = []"
| "finishes_of (Finish reason # evs) = reason # finishes_of evs"
| "finishes_of (_ # evs) = finishes_of evs"

text \<open>The chunk with every choice but the first removed.\<close>

definition first_choice_only :: "chunk \<Rightarrow> chunk" where
  "first_choice_only ch = ch\<lparr>choices := take 1 (choices ch)\<rparr>"

subsection \<open>Grouping fragments by key\<close>

text \<open>The distinct elements of a list in the order of their first occurrence.\<close>

definition first_occurrences :: "'a list \<Rightarrow> 'a list" where
  "first_occurrences xs = rev (remdups (rev xs))"

text \<open>What the properties need of the dict of builders: key, identifier and argument list of every builder, in dict order.\<close>

definition summary :: "builders \<Rightarrow> (string \<times> string \<times> string list) list" where
  "summary tcs = map (\<lambda>(k, builder). (k, b_id builder, arguments builder)) tcs"

text \<open>The fragments grouped by a key function: one entry per key, in the order the keys first occur, with the non-empty argument texts of the key's fragments in arrival order.\<close>

definition grouped :: "(call_delta \<Rightarrow> string) \<Rightarrow> call_delta list \<Rightarrow> (string \<times> string \<times> string list) list" where
  "grouped kf calls =
     map (\<lambda>k. (k, k, fragment_args (filter (\<lambda>c. kf c = k) calls))) (first_occurrences (map kf calls))"

text \<open>The key of a fragment that carries an identifier.\<close>

definition id_key :: "call_delta \<Rightarrow> string" where
  "id_key c = (case call_id c of Some k \<Rightarrow> k | None \<Rightarrow> [])"

text \<open>The key of a fragment without identifier that carries an index.\<close>

definition index_key :: "call_delta \<Rightarrow> string" where
  "index_key c = (case call_index c of Some i \<Rightarrow> idx_key i | None \<Rightarrow> [])"

text \<open>The fragment carries an identifier.\<close>

definition has_id :: "call_delta \<Rightarrow> bool" where
  "has_id c = (call_id c \<noteq> None)"

text \<open>The fragment carries no identifier but an index.\<close>

definition index_only :: "call_delta \<Rightarrow> bool" where
  "index_only c = (call_id c = None \<and> call_index c \<noteq> None)"

text \<open>The loop body of \<open>_collect_tool_calls\<close> run over a sequence of fragments, all taken at ordinal position 0.\<close>

definition collect_all :: "builders \<Rightarrow> call_delta list \<Rightarrow> builders" where
  "collect_all tcs calls = foldl (\<lambda>t c. collect_call t 0 c) tcs calls"

text \<open>Every builder has an index and is stored under the key made from it.\<close>

definition idx_inv :: "builders \<Rightarrow> bool" where
  "idx_inv tcs = list_all (\<lambda>(k, b). case b_index b of Some i \<Rightarrow> k = idx_key i | None \<Rightarrow> False) tcs"

text \<open>The tool-call fragments the handler reads from a chunk: those of the first choice.\<close>

definition chunk_calls :: "chunk \<Rightarrow> call_delta list" where
  "chunk_calls ch =
     (case choices ch of
        [] \<Rightarrow> []
      | c # others \<Rightarrow> (case tool_calls (choice_delta c) of None \<Rightarrow> [] | Some calls \<Rightarrow> calls))"

text \<open>The tool-call fragments of a stream, in arrival order.\<close>

definition stream_calls :: "chunk list \<Rightarrow> call_delta list" where
  "stream_calls stream = concat (map chunk_calls stream)"

text \<open>The chunk does not end the turn: it has no choice, or its first choice has no finish reason.\<close>

definition quiet :: "chunk \<Rightarrow> bool" where
  "quiet ch = (case choices ch of [] \<Rightarrow> True | c # others \<Rightarrow> \<not> truthy (finish_reason c))"

text \<open>The first choice of the chunk carries the finish reason \<open>tool_calls\<close>.\<close>

definition signals_tool_calls :: "chunk \<Rightarrow> bool" where
  "signals_tool_calls ch =
     (case choices ch of [] \<Rightarrow> False | c # others \<Rightarrow> finish_reason c = Some ''tool_calls'')"

text \<open>The fragment carries an identifier or an index, so its ordinal position does not matter.\<close>

definition keyed :: "call_delta \<Rightarrow> bool" where
  "keyed c = (call_id c \<noteq> None \<or> call_index c \<noteq> None)"

subsection \<open>Concrete inputs\<close>

text \<open>An object-style fragment with the given identifier, index, name and argument text.\<close>

definition object_call :: "string option \<Rightarrow> int option \<Rightarrow> string option \<Rightarrow> string option \<Rightarrow> call_delta" where
  "object_call ident i name args =
     \<lparr>is_dict = False, call_id = ident, call_type = None, call_index = i,
      call_function = Some \<lparr>fn_name = name, fn_arguments = args\<rparr>\<rparr>"

text \<open>A chunk with one choice: answer text, tool-call fragments and a finish reason.\<close>

definition one_choice :: "content_value \<Rightarrow> call_delta list option \<Rightarrow> string option \<Rightarrow> chunk" where
  "one_choice text calls reason =
     \<lparr>choices = [\<lparr>choice_delta = \<lparr>delta_attrs = [], delta_content = text, tool_calls = calls\<rparr>,
                  finish_reason = reason, choice_attrs = []\<rparr>],
      chunk_attrs = []\<rparr>"

definition plain_callbacks :: callbacks where
  "plain_callbacks = \<lparr>has_on_finish = True, has_on_debug = False\<rparr>"

text \<open>
  One logical call whose first fragment has only the index 0 and whose second fragment brings
  the identifier \<open>c1\<close> for the same index, with the finish reason \<open>tool_calls\<close>.
\<close>

definition late_id_stream :: "chunk list" where
  "late_id_stream =
     [one_choice CNone (Some [object_call None (Some 0) (Some ''get_risk'') (Some ''{'')]) None,
      one_choice CNone (Some [object_call (Some ''c1'') (Some 0) None (Some ''}'')]) (Some ''tool_calls'')]"

text \<open>Two fragments with the same identifier and different non-empty names.\<close>

definition renamed_calls :: "call_delta list" where
  "renamed_calls =
     [object_call (Some ''c1'') (Some 0) (Some ''get_risk'') (Some ''{''),
      object_call (Some ''c1'') (Some 0) (Some ''other'') (Some ''}'')]"

text \<open>
  Scenario B: two fragments with the identifier \<open>1\<close>, the second ending the turn with
  \<open>tool_calls\<close>.
\<close>

definition shared_id_pre :: "chunk list" where
  "shared_id_pre =
     [one_choice CNone (Some [object_call (Some ''1'') (Some 0) (Some ''get_risk'') (Some ''{loc:'')]) None]"

definition shared_id_fin :: chunk where
  "shared_id_fin =
     one_choice CNone (Some [object_call (Some ''1'') None None (Some ''X}'')]) (Some ''tool_calls'')"

text \<open>Two calls whose fragments carry only the indices 0 and 1, interleaved over two chunks.\<close>

definition shared_index_pre :: "chunk list" where
  "shared_index_pre =
     [one_choice CNone
        (Some [object_call None (Some 0) (Some ''get_risk'') (Some ''{loc:''),
               object_call None (Some 1) (Some ''other'') (Some ''{'')]) None]"

definition shared_index_fin :: chunk where
  "shared_index_fin =
     one_choice CNone
       (Some [object_call None (Some 1) None (Some ''}''),
              object_call None (Some 0) None (Some ''X}'')]) (Some ''tool_calls'')"

text \<open>
  Stand-ins for what lies outside the repository: a \<open>json.loads\<close> that rejects every text, a
  \<open>json.dumps\<close> that prints the keys of an object, a tool that returns its arguments and a
  tool that raises.
\<close>

definition stub_dumps :: "json \<Rightarrow> string" where
  "stub_dumps j = (case j of JObject kwargs \<Rightarrow> ''{'' @ concat (map fst kwargs) @ ''}'' | _ \<Rightarrow> ''null'')"

definition echo_tool :: tool where
  "echo_tool kwargs = Inr (JObject kwargs)"

definition failing_tool :: tool where
  "failing_tool kwargs = Inl (ToolError ''boom'')"

definition bare_env :: env where
  "bare_env = \<lparr>tools = Map.empty, json_loads = (\<lambda>s. None), json_dumps = stub_dumps, debug = False\<rparr>"

definition failing_env :: env where
  "failing_env = bare_env\<lparr>tools := register Map.empty ''foo'' failing_tool\<rparr>"

definition two_tool_env :: env where
  "two_tool_env =
     bare_env\<lparr>tools := register (register Map.empty ''get_risk'' echo_tool) ''other'' echo_tool\<rparr>"

text \<open>Scenario C: one finalized request for the capability \<open>foo\<close>.\<close>

definition foo_request :: tool_call where
  "foo_request = \<lparr>tc_id = ''c1'', tc_type = ''function'', tc_name = ''foo'', tc_arguments = []\<rparr>"

definition unknown_tool_stream :: "chunk list" where
  "unknown_tool_stream =
     [one_choice CNone (Some [object_call (Some ''c1'') (Some 0) (Some ''foo'') None]) (Some ''tool_calls'')]"

text \<open>A round that ends with \<open>tool_calls\<close> after answer text and without any tool-call fragment.\<close>

definition degenerate_stream :: "chunk list" where
  "degenerate_stream = [one_choice (CStr ''partial'') None (Some ''tool_calls'')]"

text \<open>A round with a stray tool-call fragment that ends with \<open>stop\<close>.\<close>

definition stray_stream :: "chunk list" where
  "stray_stream =
     [one_choice (CStr ''hello '') (Some [object_call (Some ''c1'') (Some 0) (Some ''get_risk'') (Some ''{}'')]) None,
      one_choice (CStr ''world'') None (Some ''stop'')]"

text \<open>Scenario D: two requests finalized in one round.\<close>

definition two_calls_chunk :: chunk where
  "two_calls_chunk =
     one_choice CNone
       (Some [object_call (Some ''a'') (Some 0) (Some ''get_risk'') None,
              object_call (Some ''b'') (Some 1) (Some ''other'') None]) (Some ''tool_calls'')"

definition request_a :: tool_call where
  "request_a = \<lparr>tc_id = ''a'', tc_type = ''function'', tc_name = ''get_risk'', tc_arguments = []\<rparr>"

definition request_b :: tool_call where
  "request_b = \<lparr>tc_id = ''b'', tc_type = ''function'', tc_name = ''other'', tc_arguments = []\<rparr>"

section \<open>Properties\<close>

subsection \<open>The decimal rendering is injective\<close>

lemma of_char_digit_char: "a < 10 \<Longrightarrow> of_char (digit_char a) = (48 + a :: nat)"
  unfolding digit_char_def by simp

lemma digit_char_inj: "a < 10 \<Longrightarrow> b < 10 \<Longrightarrow> digit_char a = digit_char b \<Longrightarrow> a = b"
proof -
  assume a: "a < 10" and b: "b < 10" and e: "digit_char a = digit_char b"
  have "(48 + a :: nat) = of_char (digit_char a)" using of_char_digit_char[OF a] by simp
  also have "\<dots> = of_char (digit_char b)" by (simp only: e)
  also have "\<dots> = 48 + b" by (rule of_char_digit_char[OF b])
  finally show "a = b" by simp
qed


lemma minus_code: "of_char (CHR ''-'') = (45::nat)"
  by code_simp

lemma digit_not_minus: "n < 10 \<Longrightarrow> digit_char n \<noteq> CHR ''-''"
proof
  assume n: "n < 10" and e: "digit_char n = CHR ''-''"
  have "(48 + n :: nat) = of_char (digit_char n)" using of_char_digit_char[OF n] by simp
  also have "\<dots> = of_char (CHR ''-'')" by (simp only: e)
  also have "\<dots> = (45::nat)" by (rule minus_code)
  finally show False by simp
qed

lemma str_nat_nonempty: "str_nat n \<noteq> []"
  by (subst str_nat.simps) simp

lemma str_nat_inj: "str_nat n = str_nat m \<Longrightarrow> n = m"
proof (induction n arbitrary: m rule: str_nat.induct)
  case (1 n)
  show ?case
  proof (cases "n < 10")
    case True
    show ?thesis
    proof (cases "m < 10")
      case mt: True
      from "1.prems" True mt have "digit_char n = digit_char m"
        by (simp add: str_nat.simps[of n] str_nat.simps[of m])
      then show ?thesis using True mt by (rule digit_char_inj[rotated 2])
    next
      case mf: False
      from "1.prems" True mf have "[digit_char n] = str_nat (m div 10) @ [digit_char (m mod 10)]"
        by (simp add: str_nat.simps[of n] str_nat.simps[of m])
      then have "str_nat (m div 10) = []" by simp
      then show ?thesis using str_nat_nonempty by blast
    qed
  next
    case False
    show ?thesis
    proof (cases "m < 10")
      case mt: True
      from "1.prems" False mt have "str_nat (n div 10) @ [digit_char (n mod 10)] = [digit_char m]"
        by (simp add: str_nat.simps[of n] str_nat.simps[of m])
      then have "str_nat (n div 10) = []" by simp
      then show ?thesis using str_nat_nonempty by blast
    next
      case mf: False
      from "1.prems" False mf
      have e: "str_nat (n div 10) @ [digit_char (n mod 10)] = str_nat (m div 10) @ [digit_char (m mod 10)]"
        by (simp add: str_nat.simps[of n] str_nat.simps[of m])
      then have e1: "str_nat (n div 10) = str_nat (m div 10)" and e2: "digit_char (n mod 10) = digit_char (m mod 10)"
        by simp_all
      from "1.IH"[OF False e1] have d: "n div 10 = m div 10" .
      have m: "n mod 10 = m mod 10" by (rule digit_char_inj[OF _ _ e2]) simp_all
      have "n = n div 10 * 10 + n mod 10" by simp
      also have "\<dots> = m div 10 * 10 + m mod 10" by (simp only: d m)
      also have "\<dots> = m" by simp
      finally show ?thesis .
    qed
  qed
qed

lemma str_nat_no_minus: "hd (str_nat n) \<noteq> CHR ''-''"
proof (induction n rule: str_nat.induct)
  case (1 n)
  show ?case
  proof (cases "n < 10")
    case True
    have "digit_char n \<noteq> CHR ''-''" using True by (rule digit_not_minus)
    then show ?thesis using True by (simp add: str_nat.simps[of n])
  next
    case False
    then show ?thesis using "1.IH" str_nat_nonempty[of "n div 10"]
      by (simp add: str_nat.simps[of n] hd_append)
  qed
qed

lemma str_int_inj: "str_int i = str_int j \<Longrightarrow> i = j"
proof -
  assume e: "str_int i = str_int j"
  consider "i < 0" "j < 0" | "i < 0" "\<not> j < 0" | "\<not> i < 0" "j < 0" | "\<not> i < 0" "\<not> j < 0" by blast
  then show "i = j"
  proof cases
    case 1
    with e have "str_nat (nat (- i)) = str_nat (nat (- j))" by (simp add: str_int_def)
    then have "nat (- i) = nat (- j)" by (rule str_nat_inj)
    with 1 show ?thesis by simp
  next
    case 2
    with e have "CHR ''-'' # str_nat (nat (- i)) = str_nat (nat j)" by (simp add: str_int_def)
    then have "hd (str_nat (nat j)) = CHR ''-''" by (metis list.sel(1))
    then show ?thesis using str_nat_no_minus by blast
  next
    case 3
    with e have "str_nat (nat i) = CHR ''-'' # str_nat (nat (- j))" by (simp add: str_int_def)
    then have "hd (str_nat (nat i)) = CHR ''-''" by (metis list.sel(1))
    then show ?thesis using str_nat_no_minus by blast
  next
    case 4
    with e have "str_nat (nat i) = str_nat (nat j)" by (simp add: str_int_def)
    then have "nat i = nat j" by (rule str_nat_inj)
    with 4 show ?thesis by simp
  qed
qed

lemma idx_key_inj: "idx_key i = idx_key j \<Longrightarrow> i = j"
  by (simp add: idx_key_def str_int_inj)

lemma idx_key_nonempty: "idx_key i \<noteq> []"
  by (simp add: idx_key_def)

subsection \<open>Auxiliary facts about \<open>ToolCallBuilder\<close>\<close>

lemma requests_of_emit: "requests_of (emit_tool_calls tcs) = map (to_dict \<circ> snd) tcs"
  by (induction tcs) (simp_all add: emit_tool_calls_def)



lemma una_name: "function_name (update_name_args b n a) = str_or n (function_name b)"
  by (cases n; cases a) (simp_all add: update_name_args_def)

lemma una_args:
  "arguments (update_name_args b n a) =
     arguments b @ (case a of None \<Rightarrow> [] | Some s \<Rightarrow> if s = [] then [] else [s])"
  by (cases n; cases a) (simp_all add: update_name_args_def)

lemma uii_name: "function_name (update_id_index b d) = function_name b"
  by (simp add: update_id_index_def Let_def)

lemma uii_args: "arguments (update_id_index b d) = arguments b"
  by (simp add: update_id_index_def Let_def)

lemma update_function_name: "function_name (update b d) = str_or (delta_name d) (function_name b)"
  by (cases "call_function d") (simp_all add: update_def una_name uii_name delta_name_def)

lemma update_arguments: "arguments (update b d) = arguments b @ fragment_args [d]"
  by (cases "call_function d")
     (simp_all add: update_def una_args uii_args delta_args_def fragment_args_def)

lemma find_by_index_find:
  "find_by_index tcs i = map_option fst (find (\<lambda>(k, builder). b_index builder = Some i) tcs)"
  by (induction tcs) auto

subsection \<open>Grouping of fragments into builders\<close>

lemma first_occurrences_snoc:
  "first_occurrences (xs @ [x]) = (if x \<in> set xs then first_occurrences xs else first_occurrences xs @ [x])"
  by (simp add: first_occurrences_def)

lemma set_first_occurrences: "set (first_occurrences xs) = set xs"
  by (simp add: first_occurrences_def)

lemma distinct_first_occurrences: "distinct (first_occurrences xs)"
  by (simp add: first_occurrences_def)

lemma first_occurrences_map_inj:
  "inj_on f (set xs) \<Longrightarrow> first_occurrences (map f xs) = map f (first_occurrences xs)"
proof (induction xs rule: rev_induct)
  case Nil
  show ?case by (simp add: first_occurrences_def)
next
  case (snoc x xs)
  have i: "inj_on f (set xs)" using snoc.prems by (simp add: inj_on_def)
  have m: "f x \<in> f ` set xs \<longleftrightarrow> x \<in> set xs"
    using snoc.prems by (auto simp: inj_on_def)
  show ?case using snoc.IH[OF i] m by (simp add: first_occurrences_snoc)
qed

lemma fragment_args_append: "fragment_args (xs @ ys) = fragment_args xs @ fragment_args ys"
  by (simp add: fragment_args_def)

lemma map_entry_fresh:
  "k \<notin> fst ` set tcs \<Longrightarrow> AList.map_entry k f (tcs @ [(k, v)]) = tcs @ [(k, f v)]"
  by (induction tcs) auto

lemma map_entry_distinct:
  "distinct (map fst tcs) \<Longrightarrow>
   map (\<lambda>(k', b). (k', g b)) (AList.map_entry k f tcs) =
   map (\<lambda>(k', b). (k', if k' = k then g (f b) else g b)) tcs"
proof (induction tcs)
  case Nil
  show ?case by simp
next
  case (Cons p tcs)
  obtain k' b where p: "p = (k', b)" by (cases p)
  show ?case
  proof (cases "k' = k")
    case True
    then have "k \<notin> fst ` set tcs" using Cons.prems p by auto
    then have "map (\<lambda>(k', b). (k', if k' = k then g (f b) else g b)) tcs = map (\<lambda>(k', b). (k', g b)) tcs"
      by (intro map_cong) (auto simp: image_iff)
    then show ?thesis using True p by simp
  next
    case False
    then show ?thesis using Cons p by simp
  qed
qed

lemma summary_keys: "map fst (summary tcs) = map fst tcs"
  by (induction tcs) (auto simp: summary_def)

lemma grouped_keys: "map fst (grouped kf calls) = first_occurrences (map kf calls)"
  by (simp add: grouped_def comp_def)

lemma update_b_id:
  "b_id b \<noteq> [] \<or> \<not> truthy (call_id c) \<Longrightarrow> b_id (update b c) = b_id b"
  by (cases "call_function c"; cases "delta_name c"; cases "delta_args c"; cases "fn_name (the (call_function c))"; cases "fn_arguments (the (call_function c))")
     (auto simp: update_def update_id_index_def update_name_args_def Let_def)

lemma update_new_builder_id:
  "str_or (call_id c) k = k \<Longrightarrow> k \<noteq> [] \<or> \<not> truthy (call_id c) \<Longrightarrow> b_id (update (new_builder k c) c) = k"
  using update_b_id[of "new_builder k c" c] by (simp add: new_builder_def)

lemma update_new_builder_args: "arguments (update (new_builder k c) c) = fragment_args [c]"
  by (simp add: update_arguments new_builder_def)

lemma summary_step:
  assumes s: "summary tcs = grouped kf done"
    and k: "resolve_key tcs idx c = kf c"
    and o: "str_or (call_id c) (kf c) = kf c"
    and t: "kf c \<noteq> [] \<or> \<not> truthy (call_id c)"
  shows "summary (collect_call tcs idx c) = grouped kf (done @ [c])"
proof -
  have keys: "map fst tcs = first_occurrences (map kf done)"
    using s summary_keys[of tcs] grouped_keys[of kf "done"] by simp
  have dist: "distinct (map fst tcs)" using keys distinct_first_occurrences by metis
  have kset: "fst ` set tcs = kf ` set done"
  proof -
    have "set (map fst tcs) = set (map kf done)" using keys set_first_occurrences by metis
    then show ?thesis by simp
  qed
  show ?thesis
  proof (cases "map_of tcs (kf c)")
    case None
    then have nk: "kf c \<notin> fst ` set tcs" by (simp add: map_of_eq_None_iff)
    then have nd: "kf c \<notin> kf ` set done" using kset by simp
    have cc: "collect_call tcs idx c = tcs @ [(kf c, update (new_builder (kf c) c) c)]"
      using None nk by (simp add: collect_call_def k Let_def map_entry_fresh)
    have f0: "filter (\<lambda>c'. kf c' = kf c) done = []"
      by (simp add: filter_empty_conv) (metis nd imageI)
    have old: "map (\<lambda>k. (k, k, fragment_args (filter (\<lambda>c'. kf c' = k) (done @ [c])))) (first_occurrences (map kf done))
             = map (\<lambda>k. (k, k, fragment_args (filter (\<lambda>c'. kf c' = k) done))) (first_occurrences (map kf done))"
      using nd by (intro map_cong) (auto simp: set_first_occurrences)
    have fo: "first_occurrences (map kf (done @ [c])) = first_occurrences (map kf done) @ [kf c]"
      using nd first_occurrences_snoc[of "map kf done" "kf c"] by simp
    have "grouped kf (done @ [c]) = grouped kf done @ [(kf c, kf c, fragment_args [c])]"
      unfolding grouped_def fo using old f0 by simp
    moreover have "summary (collect_call tcs idx c) = summary tcs @ [(kf c, kf c, fragment_args [c])]"
      unfolding cc using update_new_builder_id[OF o t] update_new_builder_args[of "kf c" c]
      by (simp add: summary_def)
    ultimately show ?thesis using s by simp
  next
    case (Some b0)
    then have ik: "kf c \<in> fst ` set tcs" by (metis map_of_eq_None_iff option.distinct(1))
    then have id: "kf c \<in> kf ` set done" using kset by simp
    have cc: "collect_call tcs idx c = AList.map_entry (kf c) (\<lambda>builder. update builder c) tcs"
      using Some by (simp add: collect_call_def k Let_def)
    have ids: "\<forall>(k', b) \<in> set tcs. b_id b = k'"
    proof -
      have "\<forall>(k', i, a) \<in> set (summary tcs). i = k'" unfolding s grouped_def by auto
      then show ?thesis unfolding summary_def by auto
    qed
    have fo: "first_occurrences (map kf (done @ [c])) = first_occurrences (map kf done)"
      using id first_occurrences_snoc[of "map kf done" "kf c"] by simp
    have g: "grouped kf (done @ [c]) =
             map (\<lambda>(k', i, a). (k', i, if k' = kf c then a @ fragment_args [c] else a)) (grouped kf done)"
      unfolding grouped_def fo by (simp add: fragment_args_append comp_def fragment_args_def)
    have "summary (collect_call tcs idx c) =
          map (\<lambda>(k', b). (k', if k' = kf c then (b_id (update b c), arguments (update b c)) else (b_id b, arguments b))) tcs"
      unfolding cc summary_def
      using map_entry_distinct[OF dist, of "\<lambda>b. (b_id b, arguments b)" "kf c" "\<lambda>builder. update builder c"]
      by simp
    also have "\<dots> = map (\<lambda>(k', b). (k', b_id b, if k' = kf c then arguments b @ fragment_args [c] else arguments b)) tcs"
    proof (intro map_cong refl)
      fix p assume p: "p \<in> set tcs"
      obtain k' b where pe: "p = (k', b)" by (cases p)
      have bi: "b_id b = k'" using ids p pe by auto
      have "k' = kf c \<Longrightarrow> b_id (update b c) = b_id b"
        using update_b_id[of b c] t bi by auto
      then show "(case p of (k', b) \<Rightarrow> (k', if k' = kf c then (b_id (update b c), arguments (update b c)) else (b_id b, arguments b)))
               = (case p of (k', b) \<Rightarrow> (k', b_id b, if k' = kf c then arguments b @ fragment_args [c] else arguments b))"
        using pe by (simp add: update_arguments)
    qed
    also have "\<dots> = map (\<lambda>(k', i, a). (k', i, if k' = kf c then a @ fragment_args [c] else a)) (summary tcs)"
      by (simp add: summary_def comp_def case_prod_beta)
    finally show ?thesis using g s by simp
  qed
qed

lemma resolve_key_id: "has_id c \<Longrightarrow> resolve_key tcs idx c = id_key c"
  by (cases "call_id c") (simp_all add: has_id_def resolve_key_def id_key_def)

lemma summary_id_case: "list_all has_id calls \<Longrightarrow> summary (collect_all [] calls) = grouped id_key calls"
proof (induction calls rule: rev_induct)
  case Nil
  show ?case by (simp add: collect_all_def summary_def grouped_def first_occurrences_def)
next
  case (snoc c calls)
  have h: "has_id c" and hs: "list_all has_id calls" using snoc.prems by simp_all
  obtain k where k: "call_id c = Some k" using h by (auto simp: has_id_def)
  have o: "str_or (call_id c) (id_key c) = id_key c" using k by (simp add: id_key_def)
  have t: "id_key c \<noteq> [] \<or> \<not> truthy (call_id c)" using k by (simp add: id_key_def)
  have "summary (collect_call (collect_all [] calls) 0 c) = grouped id_key (calls @ [c])"
    using summary_step[OF snoc.IH[OF hs] resolve_key_id[OF h] o t] .
  then show ?case by (simp add: collect_all_def)
qed

lemma find_by_index_inv:
  "idx_inv tcs \<Longrightarrow> find_by_index tcs i = (if idx_key i \<in> fst ` set tcs then Some (idx_key i) else None)"
proof (induction tcs)
  case Nil
  show ?case by simp
next
  case (Cons p tcs)
  obtain k b where p: "p = (k, b)" by (cases p)
  obtain j where j: "b_index b = Some j" "k = idx_key j"
    using Cons.prems p by (cases "b_index b") (simp_all add: idx_inv_def)
  have r: "idx_inv tcs" using Cons.prems by (simp add: idx_inv_def)
  show ?case
  proof (cases "j = i")
    case True
    then show ?thesis using p j by simp
  next
    case False
    then have "idx_key j \<noteq> idx_key i" using idx_key_inj by blast
    then show ?thesis using p j False Cons.IH[OF r] by auto
  qed
qed

lemma resolve_key_index: "idx_inv tcs \<Longrightarrow> index_only c \<Longrightarrow> resolve_key tcs idx c = index_key c"
  by (cases "call_index c")
     (simp_all add: index_only_def resolve_key_def index_key_def find_by_index_inv)

lemma update_b_index: "b_index b \<noteq> None \<Longrightarrow> b_index (update b c) = b_index b"
  by (cases "call_function c"; cases "delta_name c"; cases "delta_args c"; cases "fn_name (the (call_function c))"; cases "fn_arguments (the (call_function c))")
     (auto simp: update_def update_id_index_def update_name_args_def Let_def)

lemma list_all_map_entry:
  "list_all P tcs \<Longrightarrow> (\<And>b. P (k, b) \<Longrightarrow> P (k, f b)) \<Longrightarrow> list_all P (AList.map_entry k f tcs)"
  by (induction tcs) auto

lemma idx_inv_step:
  assumes i: "idx_inv tcs" and c: "index_only c"
  shows "idx_inv (collect_call tcs idx c)"
proof -
  obtain j where j: "call_index c = Some j" using c by (auto simp: index_only_def)
  have k: "resolve_key tcs idx c = idx_key j"
    using resolve_key_index[OF i c] j by (simp add: index_key_def)
  have n: "idx_inv (if map_of tcs (idx_key j) = None then tcs @ [(idx_key j, new_builder (idx_key j) c)] else tcs)"
    using i j by (simp add: idx_inv_def new_builder_def)
  have p: "\<And>b::ToolCallBuilder. (case b_index b of Some i \<Rightarrow> idx_key j = idx_key i | None \<Rightarrow> False) \<Longrightarrow>
                (case b_index (update b c) of Some i \<Rightarrow> idx_key j = idx_key i | None \<Rightarrow> False)"
  proof -
    fix b :: ToolCallBuilder assume a: "case b_index b of Some i \<Rightarrow> idx_key j = idx_key i | None \<Rightarrow> False"
    then have "b_index b \<noteq> None" by (cases "b_index b") simp_all
    then have "b_index (update b c) = b_index b" by (rule update_b_index)
    then show "case b_index (update b c) of Some i \<Rightarrow> idx_key j = idx_key i | None \<Rightarrow> False"
      using a by simp
  qed
  show ?thesis
    unfolding collect_call_def k Let_def idx_inv_def
    by (rule list_all_map_entry) (use n p in \<open>simp_all add: idx_inv_def\<close>)
qed

lemma summary_index_case:
  "list_all index_only calls \<Longrightarrow>
   idx_inv (collect_all [] calls) \<and> summary (collect_all [] calls) = grouped index_key calls"
proof (induction calls rule: rev_induct)
  case Nil
  show ?case by (simp add: collect_all_def summary_def grouped_def first_occurrences_def idx_inv_def)
next
  case (snoc c calls)
  have h: "index_only c" and hs: "list_all index_only calls" using snoc.prems by simp_all
  note ih = snoc.IH[OF hs]
  obtain j where j: "call_index c = Some j" and n: "call_id c = None"
    using h by (auto simp: index_only_def)
  have o: "str_or (call_id c) (index_key c) = index_key c" using n by simp
  have t: "index_key c \<noteq> [] \<or> \<not> truthy (call_id c)" using n by simp
  have s: "summary (collect_call (collect_all [] calls) 0 c) = grouped index_key (calls @ [c])"
    using summary_step[OF conjunct2[OF ih] resolve_key_index[OF conjunct1[OF ih] h] o t] .
  have i: "idx_inv (collect_call (collect_all [] calls) 0 c)"
    using idx_inv_step[OF conjunct1[OF ih] h] .
  show ?case using s i by (simp add: collect_all_def)
qed

lemma requests_of_append: "requests_of (a @ b) = requests_of a @ requests_of b"
  by (induction a rule: requests_of.induct) simp_all

lemma requests_of_debug_events: "requests_of (debug_events d c) = []"
  by (simp add: debug_events_def requests_of_append split: option.split)

lemma requests_of_emit_thinking: "requests_of (emit_thinking d c ch) = []"
  by (simp add: emit_thinking_def Let_def split: option.split)

lemma requests_of_emit_content: "requests_of (emit_content d) = []"
  by (simp add: emit_content_def Let_def split: content_value.split)

lemma collect_tool_calls_chunk:
  "choices ch = c # others \<Longrightarrow> collect_tool_calls (choice_delta c) tcs = collect_calls tcs 0 (chunk_calls ch)"
  by (simp add: collect_tool_calls_def chunk_calls_def split: option.split)

lemma handle_chunk_quiet:
  assumes "quiet ch"
  shows "requests_of (fst (handle_chunk cb ch tcs)) = []"
    and "snd (handle_chunk cb ch tcs) = collect_calls tcs 0 (chunk_calls ch)"
proof -
  show "requests_of (fst (handle_chunk cb ch tcs)) = []"
  proof (cases "choices ch")
    case Nil
    then show ?thesis by (simp add: handle_chunk_def)
  next
    case (Cons c others)
    then have "\<not> truthy (finish_reason c)" using assms by (simp add: quiet_def)
    then show ?thesis using Cons
      by (simp add: handle_chunk_def finish_chunk_def Let_def requests_of_append
          requests_of_debug_events requests_of_emit_thinking requests_of_emit_content)
  qed
  show "snd (handle_chunk cb ch tcs) = collect_calls tcs 0 (chunk_calls ch)"
  proof (cases "choices ch")
    case Nil
    then show ?thesis by (simp add: handle_chunk_def chunk_calls_def)
  next
    case (Cons c others)
    then have "\<not> truthy (finish_reason c)" using assms by (simp add: quiet_def)
    then show ?thesis using Cons collect_tool_calls_chunk[OF Cons]
      by (simp add: handle_chunk_def finish_chunk_def Let_def)
  qed
qed

lemma handle_chunk_signal:
  assumes "signals_tool_calls ch"
  shows "requests_of (fst (handle_chunk cb ch tcs)) = map (to_dict \<circ> snd) (collect_calls tcs 0 (chunk_calls ch))"
proof (cases "choices ch")
  case Nil
  then show ?thesis using assms by (simp add: signals_tool_calls_def)
next
  case (Cons c others)
  then have f: "finish_reason c = Some ''tool_calls''" using assms by (simp add: signals_tool_calls_def)
  show ?thesis using Cons f collect_tool_calls_chunk[OF Cons]
    by (simp add: handle_chunk_def finish_chunk_def Let_def requests_of_append
        requests_of_debug_events requests_of_emit_thinking requests_of_emit_content requests_of_emit)
qed

lemma handle_chunks_round:
  "list_all quiet pre \<Longrightarrow> signals_tool_calls fin \<Longrightarrow>
   requests_of (handle_chunks cb tcs (pre @ [fin])) =
   map (to_dict \<circ> snd) (foldl (\<lambda>t ch. collect_calls t 0 (chunk_calls ch)) tcs (pre @ [fin]))"
proof (induction pre arbitrary: tcs)
  case Nil
  obtain evs tcs' where h: "handle_chunk cb fin tcs = (evs, tcs')" by (cases "handle_chunk cb fin tcs")
  have "requests_of evs = map (to_dict \<circ> snd) (collect_calls tcs 0 (chunk_calls fin))"
    using handle_chunk_signal[OF Nil.prems(2), of cb tcs] h by simp
  then show ?case using h by simp
next
  case (Cons ch pre)
  have q: "quiet ch" and qs: "list_all quiet pre" using Cons.prems(1) by simp_all
  obtain evs tcs' where h: "handle_chunk cb ch tcs = (evs, tcs')" by (cases "handle_chunk cb ch tcs")
  have e: "requests_of evs = []" using handle_chunk_quiet(1)[OF q, of cb tcs] h by simp
  have t: "tcs' = collect_calls tcs 0 (chunk_calls ch)" using handle_chunk_quiet(2)[OF q, of cb tcs] h by simp
  show ?case using Cons.IH[OF qs Cons.prems(2), of tcs'] h e t
    by (simp add: requests_of_append)
qed

lemma resolve_key_keyed: "keyed c \<Longrightarrow> resolve_key tcs n c = resolve_key tcs 0 c"
  by (cases "call_id c"; cases "call_index c"; cases "find_by_index tcs (the (call_index c))")
     (simp_all add: keyed_def resolve_key_def)

lemma collect_call_keyed: "keyed c \<Longrightarrow> collect_call tcs n c = collect_call tcs 0 c"
  using resolve_key_keyed[of c tcs n] by (simp add: collect_call_def)

lemma collect_all_Cons: "collect_all tcs (c # calls) = collect_all (collect_call tcs 0 c) calls"
  by (simp add: collect_all_def)

lemma collect_all_append: "collect_all tcs (xs @ ys) = collect_all (collect_all tcs xs) ys"
  by (simp add: collect_all_def)

lemma collect_calls_keyed: "list_all keyed calls \<Longrightarrow> collect_calls tcs n calls = collect_all tcs calls"
proof (induction calls arbitrary: tcs n)
  case Nil
  show ?case by (simp add: collect_all_def)
next
  case (Cons c calls)
  have k: "keyed c" and ks: "list_all keyed calls" using Cons.prems by simp_all
  show ?case using Cons.IH[OF ks] collect_call_keyed[OF k, of tcs n] by (simp add: collect_all_Cons)
qed

lemma collect_stream_keyed:
  "list_all keyed (stream_calls stream) \<Longrightarrow>
   foldl (\<lambda>t ch. collect_calls t 0 (chunk_calls ch)) tcs stream = collect_all tcs (stream_calls stream)"
proof (induction stream arbitrary: tcs)
  case Nil
  show ?case by (simp add: stream_calls_def collect_all_def)
next
  case (Cons ch stream)
  have k: "list_all keyed (chunk_calls ch)" and ks: "list_all keyed (stream_calls stream)"
    using Cons.prems by (simp_all add: stream_calls_def)
  have "stream_calls (ch # stream) = chunk_calls ch @ stream_calls stream"
    by (simp add: stream_calls_def)
  then show ?case using Cons.IH[OF ks] collect_calls_keyed[OF k] by (simp add: collect_all_append)
qed

lemma requests_of_summary:
  "map (\<lambda>r. (tc_id r, tc_arguments r)) (map (to_dict \<circ> snd) tcs) =
   map (\<lambda>(k, i, a). (if i = [] then ''call'' else i, concat a)) (summary tcs)"
  by (simp add: summary_def to_dict_def comp_def case_prod_beta)

lemma has_id_keyed: "list_all has_id xs \<Longrightarrow> list_all keyed xs"
  by (induction xs) (simp_all add: has_id_def keyed_def)

lemma index_only_keyed: "list_all index_only xs \<Longrightarrow> list_all keyed xs"
  by (induction xs) (simp_all add: index_only_def keyed_def)

lemma map_id_key: "list_all has_id xs \<Longrightarrow> map id_key xs = List.map_filter call_id xs"
  by (induction xs) (auto simp: has_id_def id_key_def List.map_filter_def)

lemma filter_id_key:
  "list_all has_id xs \<Longrightarrow> filter (\<lambda>c. id_key c = k) xs = filter (\<lambda>c. call_id c = Some k) xs"
  by (induction xs) (auto simp: has_id_def id_key_def)

lemma map_index_key:
  "list_all index_only xs \<Longrightarrow> map index_key xs = map idx_key (List.map_filter call_index xs)"
  by (induction xs) (auto simp: index_only_def index_key_def List.map_filter_def)

lemma filter_index_key:
  "list_all index_only xs \<Longrightarrow>
   filter (\<lambda>c. index_key c = idx_key i) xs = filter (\<lambda>c. call_index c = Some i) xs"
proof (induction xs)
  case Nil
  show ?case by simp
next
  case (Cons c xs)
  obtain j where j: "call_index c = Some j" using Cons.prems by (auto simp: index_only_def)
  have "idx_key j = idx_key i \<longleftrightarrow> j = i" using idx_key_inj by blast
  then show ?case using Cons j by (simp add: index_key_def)
qed

lemma first_occurrences_idx_key:
  "first_occurrences (map idx_key xs) = map idx_key (first_occurrences xs)"
proof (rule first_occurrences_map_inj)
  show "inj_on idx_key (set xs)" using idx_key_inj by (simp add: inj_on_def)
qed

lemma round_requests:
  assumes q: "list_all quiet pre" and f: "signals_tool_calls fin"
    and k: "list_all keyed (stream_calls (pre @ [fin]))"
  shows "map (\<lambda>r. (tc_id r, tc_arguments r)) (requests_of (handle_stream cb (pre @ [fin]))) =
         map (\<lambda>(k, i, a). (if i = [] then ''call'' else i, concat a))
             (summary (collect_all [] (stream_calls (pre @ [fin]))))"
proof -
  have "requests_of (handle_stream cb (pre @ [fin])) =
        map (to_dict \<circ> snd) (collect_all [] (stream_calls (pre @ [fin])))"
    unfolding handle_stream_def handle_chunks_round[OF q f] collect_stream_keyed[OF k] ..
  then show ?thesis by (simp only: requests_of_summary)
qed

subsection \<open>Claims about the accumulator\<close>

text \<open>
  C3. Take a stream whose last chunk is the first to carry a finish reason, and that reason
  is \<open>tool_calls\<close>. If every tool-call fragment of the stream carries an identifier, the
  handler emits exactly one request per identifier, in the order the identifiers first
  occur; the request carries the identifier (\<open>call\<close> for the empty identifier) and its
  argument string is the concatenation, in arrival order, of the argument texts of the
  fragments with that identifier. If no fragment carries an identifier and every fragment
  carries an index, the same holds per index, the request carrying the key made from it.
\<close>

theorem one_request_per_key:
  assumes q: "list_all quiet pre" and f: "signals_tool_calls fin"
  shows "(list_all has_id (stream_calls (pre @ [fin])) \<longrightarrow>
            map (\<lambda>r. (tc_id r, tc_arguments r)) (requests_of (handle_stream cb (pre @ [fin]))) =
            map (\<lambda>k. (if k = [] then ''call'' else k,
                      concat (fragment_args (filter (\<lambda>c. call_id c = Some k) (stream_calls (pre @ [fin]))))))
                (first_occurrences (List.map_filter call_id (stream_calls (pre @ [fin])))))
       \<and> (list_all index_only (stream_calls (pre @ [fin])) \<longrightarrow>
            map (\<lambda>r. (tc_id r, tc_arguments r)) (requests_of (handle_stream cb (pre @ [fin]))) =
            map (\<lambda>i. (idx_key i,
                      concat (fragment_args (filter (\<lambda>c. call_index c = Some i) (stream_calls (pre @ [fin]))))))
                (first_occurrences (List.map_filter call_index (stream_calls (pre @ [fin])))))"
proof (intro conjI impI)
  let ?calls = "stream_calls (pre @ [fin])"
  assume a: "list_all has_id ?calls"
  have "map (\<lambda>r. (tc_id r, tc_arguments r)) (requests_of (handle_stream cb (pre @ [fin]))) =
        map (\<lambda>(k, i, a). (if i = [] then ''call'' else i, concat a)) (grouped id_key ?calls)"
    using round_requests[OF q f has_id_keyed[OF a]] summary_id_case[OF a] by simp
  also have "\<dots> = map (\<lambda>k. (if k = [] then ''call'' else k,
                      concat (fragment_args (filter (\<lambda>c. id_key c = k) ?calls))))
                (first_occurrences (map id_key ?calls))"
    by (simp add: grouped_def comp_def)
  also have "\<dots> = map (\<lambda>k. (if k = [] then ''call'' else k,
                      concat (fragment_args (filter (\<lambda>c. call_id c = Some k) ?calls))))
                (first_occurrences (List.map_filter call_id ?calls))"
    by (simp only: filter_id_key[OF a] map_id_key[OF a])
  finally show "map (\<lambda>r. (tc_id r, tc_arguments r)) (requests_of (handle_stream cb (pre @ [fin]))) =
            map (\<lambda>k. (if k = [] then ''call'' else k,
                      concat (fragment_args (filter (\<lambda>c. call_id c = Some k) ?calls))))
                (first_occurrences (List.map_filter call_id ?calls))" .
next
  let ?calls = "stream_calls (pre @ [fin])"
  assume a: "list_all index_only ?calls"
  have "map (\<lambda>r. (tc_id r, tc_arguments r)) (requests_of (handle_stream cb (pre @ [fin]))) =
        map (\<lambda>(k, i, a). (if i = [] then ''call'' else i, concat a)) (grouped index_key ?calls)"
    using round_requests[OF q f index_only_keyed[OF a]] summary_index_case[OF a] by simp
  also have "\<dots> = map (\<lambda>k. (if k = [] then ''call'' else k,
                      concat (fragment_args (filter (\<lambda>c. index_key c = k) ?calls))))
                (map idx_key (first_occurrences (List.map_filter call_index ?calls)))"
    by (simp add: grouped_def comp_def map_index_key[OF a] first_occurrences_idx_key)
  also have "\<dots> = map (\<lambda>i. (idx_key i,
                      concat (fragment_args (filter (\<lambda>c. call_index c = Some i) ?calls))))
                (first_occurrences (List.map_filter call_index ?calls))"
    by (simp add: comp_def idx_key_nonempty filter_index_key[OF a])
  finally show "map (\<lambda>r. (tc_id r, tc_arguments r)) (requests_of (handle_stream cb (pre @ [fin]))) =
            map (\<lambda>i. (idx_key i,
                      concat (fragment_args (filter (\<lambda>c. call_index c = Some i) ?calls))))
                (first_occurrences (List.map_filter call_index ?calls))" .
qed

theorem one_request_per_key_witness:
  "list_all quiet shared_id_pre \<and> signals_tool_calls shared_id_fin
   \<and> list_all has_id (stream_calls (shared_id_pre @ [shared_id_fin]))
   \<and> map (\<lambda>r. (tc_id r, tc_arguments r))
        (requests_of (handle_stream plain_callbacks (shared_id_pre @ [shared_id_fin])))
      = [(''1'', ''{loc:X}'')]
   \<and> list_all quiet shared_index_pre \<and> signals_tool_calls shared_index_fin
   \<and> list_all index_only (stream_calls (shared_index_pre @ [shared_index_fin]))
   \<and> map (\<lambda>r. (tc_id r, tc_arguments r))
        (requests_of (handle_stream plain_callbacks (shared_index_pre @ [shared_index_fin])))
      = [(''idx_0'', ''{loc:X}''), (''idx_1'', ''{}'')]"
proof -
  have q1: "list_all quiet shared_id_pre" by code_simp
  have f1: "signals_tool_calls shared_id_fin" by code_simp
  have a1: "list_all has_id (stream_calls (shared_id_pre @ [shared_id_fin]))" by code_simp
  have r1: "map (\<lambda>k. (if k = [] then ''call'' else k,
                      concat (fragment_args (filter (\<lambda>c. call_id c = Some k)
                        (stream_calls (shared_id_pre @ [shared_id_fin]))))))
                (first_occurrences (List.map_filter call_id (stream_calls (shared_id_pre @ [shared_id_fin]))))
            = [(''1'', ''{loc:X}'')]" by code_simp
  have t1: "map (\<lambda>r. (tc_id r, tc_arguments r))
        (requests_of (handle_stream plain_callbacks (shared_id_pre @ [shared_id_fin])))
      = [(''1'', ''{loc:X}'')]"
    using one_request_per_key[OF q1 f1, of plain_callbacks] a1 r1 by simp
  have q2: "list_all quiet shared_index_pre" by code_simp
  have f2: "signals_tool_calls shared_index_fin" by code_simp
  have a2: "list_all index_only (stream_calls (shared_index_pre @ [shared_index_fin]))" by code_simp
  have r2: "map (\<lambda>i. (idx_key i,
                      concat (fragment_args (filter (\<lambda>c. call_index c = Some i)
                        (stream_calls (shared_index_pre @ [shared_index_fin]))))))
                (first_occurrences (List.map_filter call_index (stream_calls (shared_index_pre @ [shared_index_fin]))))
            = [(''idx_0'', ''{loc:X}''), (''idx_1'', ''{}'')]" by code_simp
  have t2: "map (\<lambda>r. (tc_id r, tc_arguments r))
        (requests_of (handle_stream plain_callbacks (shared_index_pre @ [shared_index_fin])))
      = [(''idx_0'', ''{loc:X}''), (''idx_1'', ''{}'')]"
    using one_request_per_key[OF q2 f2, of plain_callbacks] a2 r2 by simp
  show ?thesis using q1 f1 a1 t1 q2 f2 a2 t2 by simp
qed

text \<open>
  C4, as the code has it. \<open>update\<close> assigns the capability name whenever the fragment carries
  a non-empty one, so after any sequence of fragments merged into a builder the name is the
  last non-empty name among them (the builder's own name if there is none): a later,
  different non-empty name replaces an earlier one. The argument list only grows: it is
  the old list followed by the non-empty argument texts of the fragments in arrival order.
\<close>

theorem update_last_name_wins_args_appended:
  "function_name (foldl update b ds) = last (function_name b # fragment_names ds)
   \<and> arguments (foldl update b ds) = arguments b @ fragment_args ds"
proof (induction ds arbitrary: b)
  case Nil
  show ?case by (simp add: fragment_names_def fragment_args_def)
next
  case (Cons d ds)
  have n: "last (function_name (update b d) # fragment_names ds)
           = last (function_name b # fragment_names (d # ds))"
    by (cases "delta_name d") (simp_all add: update_function_name fragment_names_def)
  have a: "arguments (update b d) @ fragment_args ds = arguments b @ fragment_args (d # ds)"
    by (simp add: update_arguments fragment_args_def)
  show ?case using Cons.IH[of "update b d"] n a by simp
qed

text \<open>
  C4 as stated fails: two fragments under the identifier \<open>c1\<close>, the first named
  \<open>get_risk\<close> and the second \<open>other\<close>, leave one accumulator whose name is \<open>other\<close>.
\<close>

theorem name_overwritten_counterexample:
  "map (\<lambda>(k, builder). (k, function_name builder)) (collect_calls [] 0 (take 1 renamed_calls))
     = [(''c1'', ''get_risk'')]
   \<and> map (\<lambda>(k, builder). (k, function_name builder)) (collect_calls [] 0 renamed_calls)
     = [(''c1'', ''other'')]"
  by code_simp

text \<open>
  C5. The key that \<open>_collect_tool_calls\<close> computes for a fragment is the one the resolution
  order of the specification describes, for every dict of builders, every ordinal position
  and every fragment; and after the iteration the dict holds, under that key, the builder
  found there before (a new one if there was none) updated with the fragment. A key made
  from the index or the ordinal position is made anew from that number; when a builder is
  already stored under it, the fragment merges into that builder.
\<close>

theorem resolve_key_order:
  "resolve_key tcs idx call = correlation_key tcs idx call
   \<and> map_of (collect_call tcs idx call) (correlation_key tcs idx call) =
       Some (update (case map_of tcs (correlation_key tcs idx call) of
                       None \<Rightarrow> new_builder (correlation_key tcs idx call) call
                     | Some builder \<Rightarrow> builder) call)"
proof -
  have k: "resolve_key tcs idx call = correlation_key tcs idx call"
    by (cases "call_id call"; cases "call_index call";
        cases "find (\<lambda>(k, builder). b_index builder = Some (the (call_index call))) tcs")
       (auto simp: resolve_key_def correlation_key_def find_by_index_find Let_def)
  have m: "map_of (collect_call tcs idx call) (resolve_key tcs idx call) =
       Some (update (case map_of tcs (resolve_key tcs idx call) of
                       None \<Rightarrow> new_builder (resolve_key tcs idx call) call
                     | Some builder \<Rightarrow> builder) call)"
    by (cases "map_of tcs (resolve_key tcs idx call)")
       (simp_all add: collect_call_def Let_def map_of_map_entry map_add_def)
  from m show ?thesis unfolding k by simp
qed

text \<open>
  C6 at a concrete stream. The first fragment carries only the index 0, the second the
  identifier \<open>c1\<close> and the same index. The identifier is taken as the key before the index is
  looked at, so the second fragment opens a second builder: two requests are emitted, the
  second without a name.
\<close>

theorem late_identifier_splits_call:
  "requests_of (handle_stream plain_callbacks late_id_stream) =
     [\<lparr>tc_id = ''idx_0'', tc_type = ''function'', tc_name = ''get_risk'', tc_arguments = ''{''\<rparr>,
      \<lparr>tc_id = ''c1'', tc_type = ''function'', tc_name = ''unknown_function'', tc_arguments = ''}''\<rparr>]"
  by code_simp


subsection \<open>The state of a round and the dispatch loop\<close>

lemma contents_of_append: "contents_of (a @ b) = contents_of a @ contents_of b"
  by (induction a rule: contents_of.induct) simp_all

lemma finishes_of_append: "finishes_of (a @ b) = finishes_of a @ finishes_of b"
  by (induction a rule: finishes_of.induct) simp_all

lemma finishes_of_debug_events: "finishes_of (debug_events d c) = []"
  by (simp add: debug_events_def finishes_of_append split: option.split)

lemma finishes_of_emit_thinking: "finishes_of (emit_thinking d c ch) = []"
  by (simp add: emit_thinking_def Let_def split: option.split)

lemma finishes_of_emit_content: "finishes_of (emit_content d) = []"
  by (simp add: emit_content_def Let_def split: content_value.split)

lemma finishes_of_emit_tool_calls: "finishes_of (emit_tool_calls tcs) = []"
  by (induction tcs) (simp_all add: emit_tool_calls_def)

lemma fold_round_tool_calls:
  "round_tool_calls (foldl on_event st evs) = round_tool_calls st @ requests_of evs"
proof (induction evs arbitrary: st)
  case Nil
  show ?case by simp
next
  case (Cons ev evs)
  show ?case using Cons.IH[of "on_event st ev"] by (cases ev) simp_all
qed

lemma fold_assistant_chunks:
  "assistant_chunks (foldl on_event st evs) = assistant_chunks st @ contents_of evs"
proof (induction evs arbitrary: st)
  case Nil
  show ?case by simp
next
  case (Cons ev evs)
  show ?case using Cons.IH[of "on_event st ev"] by (cases ev) simp_all
qed

lemma fold_finish_reason:
  "round_finish_reason (foldl on_event st evs) =
     (if finishes_of evs = [] then round_finish_reason st else Some (last (finishes_of evs)))"
proof (induction evs arbitrary: st)
  case Nil
  show ?case by simp
next
  case (Cons ev evs)
  show ?case using Cons.IH[of "on_event st ev"] by (cases ev) simp_all
qed

lemma run_stream_tool_calls:
  "round_tool_calls (run_stream e stream) = requests_of (handle_stream (bot_callbacks e) stream)"
  by (simp add: run_stream_def fold_round_tool_calls initial_round_def)

lemma run_stream_chunks:
  "assistant_chunks (run_stream e stream) = contents_of (handle_stream (bot_callbacks e) stream)"
  by (simp add: run_stream_def fold_assistant_chunks initial_round_def)

lemma run_stream_finish:
  "round_finish_reason (run_stream e stream) =
     (if finishes_of (handle_stream (bot_callbacks e) stream) = [] then None
      else Some (last (finishes_of (handle_stream (bot_callbacks e) stream))))"
  by (simp add: run_stream_def fold_finish_reason initial_round_def)

lemma handle_chunk_no_signal:
  assumes "\<not> signals_tool_calls ch"
  shows "requests_of (fst (handle_chunk cb ch tcs)) = []"
    and "''tool_calls'' \<notin> set (finishes_of (fst (handle_chunk cb ch tcs)))"
proof -
  show "requests_of (fst (handle_chunk cb ch tcs)) = []"
  proof (cases "choices ch")
    case Nil
    then show ?thesis by (simp add: handle_chunk_def)
  next
    case (Cons c others)
    then have "finish_reason c \<noteq> Some ''tool_calls''" using assms by (simp add: signals_tool_calls_def)
    then show ?thesis using Cons
      by (simp add: handle_chunk_def finish_chunk_def Let_def requests_of_append
          requests_of_debug_events requests_of_emit_thinking requests_of_emit_content)
  qed
  show "''tool_calls'' \<notin> set (finishes_of (fst (handle_chunk cb ch tcs)))"
  proof (cases "choices ch")
    case Nil
    then show ?thesis by (simp add: handle_chunk_def)
  next
    case (Cons c others)
    then have n: "finish_reason c \<noteq> Some ''tool_calls''" using assms by (simp add: signals_tool_calls_def)
    have "str_or (finish_reason c) [] \<noteq> ''tool_calls''"
      using n by (cases "finish_reason c") auto
    then show ?thesis using Cons n
      by (simp add: handle_chunk_def finish_chunk_def Let_def finishes_of_append
          finishes_of_debug_events finishes_of_emit_thinking finishes_of_emit_content)
  qed
qed

lemma handle_chunks_no_signal:
  "\<not> list_ex signals_tool_calls stream \<Longrightarrow>
   requests_of (handle_chunks cb tcs stream) = []
   \<and> ''tool_calls'' \<notin> set (finishes_of (handle_chunks cb tcs stream))"
proof (induction stream arbitrary: tcs)
  case Nil
  show ?case by simp
next
  case (Cons ch stream)
  have n: "\<not> signals_tool_calls ch" and ns: "\<not> list_ex signals_tool_calls stream"
    using Cons.prems by simp_all
  obtain evs tcs' where h: "handle_chunk cb ch tcs = (evs, tcs')" by (cases "handle_chunk cb ch tcs")
  have e: "requests_of evs = []" using handle_chunk_no_signal(1)[OF n, of cb tcs] h by simp
  have f: "''tool_calls'' \<notin> set (finishes_of evs)" using handle_chunk_no_signal(2)[OF n, of cb tcs] h by simp
  show ?case using Cons.IH[OF ns, of tcs'] h e f
    by (simp add: requests_of_append finishes_of_append)
qed

lemma tool_call_rebuild:
  "\<lparr>tc_id = tc_id c, tc_type = tc_type c, tc_name = tc_name c, tc_arguments = tc_arguments c\<rparr> = (c :: tool_call)"
  by (cases c) simp

lemma format_assistant_tool_message_id: "format_assistant_tool_message calls = AssistantToolCalls calls"
  by (induction calls) (simp_all add: format_assistant_tool_message_def tool_call_rebuild)

lemma dispatch_unregistered: "tools e (tc_name c) = None \<Longrightarrow> isl (dispatch e c)"
  by (cases "parse_arguments e (tc_arguments c)") (simp_all add: dispatch_def execute_def)

lemma execute_tool_calls_prefix:
  "fst (execute_tool_calls e calls) = take (length (fst (execute_tool_calls e calls))) calls"
proof (induction calls)
  case Nil
  show ?case by simp
next
  case (Cons c calls)
  show ?case
  proof (cases "dispatch e c")
    case (Inl err)
    then show ?thesis by simp
  next
    case (Inr res)
    obtain d r where x: "execute_tool_calls e calls = (d, r)" by (cases "execute_tool_calls e calls")
    show ?thesis using Cons Inr x by (cases r) simp_all
  qed
qed

lemma execute_tool_calls_error:
  "snd (execute_tool_calls e calls) = Inl err \<Longrightarrow>
   fst (execute_tool_calls e calls) \<noteq> [] \<and> dispatch e (last (fst (execute_tool_calls e calls))) = Inl err"
proof (induction calls)
  case Nil
  then show ?case by simp
next
  case (Cons c calls)
  show ?case
  proof (cases "dispatch e c")
    case (Inl err')
    then show ?thesis using Cons.prems by simp
  next
    case (Inr res)
    obtain d r where x: "execute_tool_calls e calls = (d, r)" by (cases "execute_tool_calls e calls")
    show ?thesis
    proof (cases r)
      case l: (Inl err')
      then have "err' = err" using Cons.prems Inr x by simp
      then show ?thesis using Cons.IH Inr x l by simp
    next
      case (Inr msgs)
      then show ?thesis using Cons.prems \<open>dispatch e c = Inr res\<close> x by simp
    qed
  qed
qed

lemma execute_tool_calls_before_error:
  "snd (execute_tool_calls e calls) = Inl err \<Longrightarrow>
   list_all (\<lambda>c. \<not> isl (dispatch e c)) (butlast (fst (execute_tool_calls e calls)))"
proof (induction calls)
  case Nil
  then show ?case by simp
next
  case (Cons c calls)
  show ?case
  proof (cases "dispatch e c")
    case (Inl err')
    then show ?thesis by simp
  next
    case (Inr res)
    obtain d r where x: "execute_tool_calls e calls = (d, r)" by (cases "execute_tool_calls e calls")
    show ?thesis
    proof (cases r)
      case l: (Inl err')
      then have el: "snd (execute_tool_calls e calls) = Inl err" using Cons.prems Inr x by simp
      have ne: "d \<noteq> []" using execute_tool_calls_error[OF el] x by simp
      show ?thesis using Cons.IH[OF el] Inr x l ne by simp
    next
      case (Inr msgs)
      then show ?thesis using Cons.prems \<open>dispatch e c = Inr res\<close> x by simp
    qed
  qed
qed

lemma execute_tool_calls_ok:
  "snd (execute_tool_calls e calls) = Inr msgs \<Longrightarrow>
   fst (execute_tool_calls e calls) = calls
   \<and> list_all2 (\<lambda>c m. \<exists>res. dispatch e c = Inr res \<and> m = tool_message e c res) calls msgs"
proof (induction calls arbitrary: msgs)
  case Nil
  then show ?case by simp
next
  case (Cons c calls)
  show ?case
  proof (cases "dispatch e c")
    case (Inl err')
    then show ?thesis using Cons.prems by simp
  next
    case (Inr res)
    obtain d r where x: "execute_tool_calls e calls = (d, r)" by (cases "execute_tool_calls e calls")
    show ?thesis
    proof (cases r)
      case (Inl err')
      then show ?thesis using Cons.prems Inr x by simp
    next
      case r: (Inr ms)
      have m: "msgs = tool_message e c res # ms" using Cons.prems Inr x r by simp
      have "snd (execute_tool_calls e calls) = Inr ms" using x r by simp
      from Cons.IH[OF this] show ?thesis using Inr x r m by simp
    qed
  qed
qed

lemma execute_tool_calls_fails:
  "c \<in> set calls \<Longrightarrow> isl (dispatch e c) \<Longrightarrow> isl (snd (execute_tool_calls e calls))"
proof (induction calls)
  case Nil
  then show ?case by simp
next
  case (Cons c' calls)
  show ?case
  proof (cases "dispatch e c'")
    case (Inl err')
    then show ?thesis by simp
  next
    case (Inr res)
    then have "c \<noteq> c'" using Cons.prems(2) by auto
    then have "c \<in> set calls" using Cons.prems(1) by simp
    from Cons.IH[OF this Cons.prems(2)] obtain err where "snd (execute_tool_calls e calls) = Inl err"
      by (cases "snd (execute_tool_calls e calls)") simp_all
    then show ?thesis using Inr by (cases "execute_tool_calls e calls") simp
  qed
qed

lemma finish_chunk_tool_calls:
  "finish_chunk cb (Some ''tool_calls'') tcs =
     (emit_tool_calls tcs @ (if has_on_finish cb then [Finish ''tool_calls''] else []), [])"
  by (simp add: finish_chunk_def)

lemma round_step_order:
  "dispatched (round_step e hist stream) =
     take (length (dispatched (round_step e hist stream))) (round_tool_calls (run_stream e stream))"
proof -
  let ?calls = "round_tool_calls (run_stream e stream)"
  obtain d r where x: "execute_tool_calls e ?calls = (d, r)" by (cases "execute_tool_calls e ?calls")
  have t: "d = take (length d) ?calls" using execute_tool_calls_prefix[of e ?calls] x by simp
  show ?thesis using x t by (cases r) (simp_all add: round_step_def Let_def)
qed

lemma round_step_continue:
  assumes "result (round_step e hist stream) = Continue"
  shows "dispatched (round_step e hist stream) = round_tool_calls (run_stream e stream)
       \<and> (\<exists>msgs. history (round_step e hist stream) =
                   hist @ [AssistantToolCalls (round_tool_calls (run_stream e stream))] @ msgs
                 \<and> list_all2 (\<lambda>c m. \<exists>res. dispatch e c = Inr res \<and> m = tool_message e c res)
                      (round_tool_calls (run_stream e stream)) msgs)"
proof -
  let ?calls = "round_tool_calls (run_stream e stream)"
  obtain d r where x: "execute_tool_calls e ?calls = (d, r)" by (cases "execute_tool_calls e ?calls")
  have b: "?calls \<noteq> [] \<or> round_finish_reason (run_stream e stream) = Some ''tool_calls''"
  proof (rule ccontr)
    assume "\<not> (?calls \<noteq> [] \<or> round_finish_reason (run_stream e stream) = Some ''tool_calls'')"
    then have "result (round_step e hist stream) = Return (concat (assistant_chunks (run_stream e stream)))"
      by (simp add: round_step_def Let_def)
    with assms show False by simp
  qed
  obtain msgs where r: "r = Inr msgs" using assms b x by (cases r) (auto simp: round_step_def Let_def)
  have s: "snd (execute_tool_calls e ?calls) = Inr msgs" using x r by simp
  have o: "d = ?calls \<and> list_all2 (\<lambda>c m. \<exists>res. dispatch e c = Inr res \<and> m = tool_message e c res) ?calls msgs"
    using execute_tool_calls_ok[OF s] x by simp
  have h: "history (round_step e hist stream) = hist @ [AssistantToolCalls ?calls] @ msgs"
    using b x r by (auto simp: round_step_def Let_def format_assistant_tool_message_id)
  have dd: "dispatched (round_step e hist stream) = d"
    using b x r by (auto simp: round_step_def Let_def)
  show ?thesis using o h dd by blast
qed

lemma emit_thinking_choices: "emit_thinking d c (ch\<lparr>choices := cs\<rparr>) = emit_thinking d c ch"
proof -
  have a: "chunk_attrs (ch\<lparr>choices := cs\<rparr>) = chunk_attrs ch" by simp
  show ?thesis unfolding emit_thinking_def a ..
qed

lemma handle_chunk_choices:
  "handle_chunk cb (ch\<lparr>choices := c # others\<rparr>) tcs = handle_chunk cb (ch\<lparr>choices := [c]\<rparr>) tcs"
  by (simp add: handle_chunk_def Let_def emit_thinking_choices split: prod.split)

lemma handle_chunk_first_choice: "handle_chunk cb (first_choice_only ch) tcs = handle_chunk cb ch tcs"
proof (cases "choices ch")
  case Nil
  then show ?thesis by (simp add: handle_chunk_def first_choice_only_def)
next
  case (Cons c others)
  have e: "ch\<lparr>choices := c # others\<rparr> = ch" using Cons by simp
  have "handle_chunk cb (first_choice_only ch) tcs = handle_chunk cb (ch\<lparr>choices := [c]\<rparr>) tcs"
    using Cons by (simp add: first_choice_only_def)
  also have "\<dots> = handle_chunk cb (ch\<lparr>choices := c # others\<rparr>) tcs"
    by (rule handle_chunk_choices[symmetric])
  also have "\<dots> = handle_chunk cb ch tcs" by (simp only: e)
  finally show ?thesis .
qed

lemma handle_chunks_first_choice:
  "handle_chunks cb tcs (map first_choice_only stream) = handle_chunks cb tcs stream"
  by (induction stream arbitrary: tcs) (simp_all add: handle_chunk_first_choice)

subsection \<open>Claims about the conversation loop\<close>

text \<open>
  C1, as the code has it. \<open>_execute_tool_calls\<close> calls \<open>registry.execute\<close> without a
  handler for its exceptions. So when a finalized request of the round names a capability
  that is not registered, or its dispatch raises, the error of the first failing request
  leaves \<open>send_message\<close>: the assistant message with the round's requests is in the history,
  no tool message of the round is appended, the requests after the failing one are not
  dispatched, and no further round starts.
\<close>

theorem dispatch_failure_leaves_send_message:
  assumes m: "c \<in> set (requests_of (handle_stream (bot_callbacks e) (client hist)))"
    and f: "tools e (tc_name c) = None \<or> isl (dispatch e c)"
  shows "\<exists>d err.
           round_step e hist (client hist) =
             \<lparr>history = hist @ [AssistantToolCalls (requests_of (handle_stream (bot_callbacks e) (client hist)))],
              dispatched = d, result = Raise err\<rparr>
           \<and> d \<noteq> [] \<and> dispatch e (last d) = Inl err
           \<and> list_all (\<lambda>c. \<not> isl (dispatch e c)) (butlast d)
           \<and> d = take (length d) (requests_of (handle_stream (bot_callbacks e) (client hist)))
           \<and> rounds (Suc n) e client hist =
               Some (hist @ [AssistantToolCalls (requests_of (handle_stream (bot_callbacks e) (client hist)))],
                     Raise err)"
proof -
  let ?calls = "requests_of (handle_stream (bot_callbacks e) (client hist))"
  have i: "isl (dispatch e c)" using f dispatch_unregistered by blast
  have rc: "round_tool_calls (run_stream e (client hist)) = ?calls" by (rule run_stream_tool_calls)
  have ne: "?calls \<noteq> []" using m by auto
  obtain d r where x: "execute_tool_calls e ?calls = (d, r)" by (cases "execute_tool_calls e ?calls")
  have "isl (snd (execute_tool_calls e ?calls))" using execute_tool_calls_fails[OF m i] .
  then obtain err where r: "r = Inl err" using x by (cases r) simp_all
  have s: "snd (execute_tool_calls e ?calls) = Inl err" using x r by simp
  have p: "d \<noteq> [] \<and> dispatch e (last d) = Inl err"
    using execute_tool_calls_error[OF s] x by simp
  have t: "d = take (length d) ?calls" using execute_tool_calls_prefix[of e ?calls] x by simp
  have b: "list_all (\<lambda>c. \<not> isl (dispatch e c)) (butlast d)"
    using execute_tool_calls_before_error[OF s] x by simp
  have rs: "round_step e hist (client hist) =
             \<lparr>history = hist @ [AssistantToolCalls ?calls], dispatched = d, result = Raise err\<rparr>"
    using ne x r by (simp add: round_step_def Let_def rc format_assistant_tool_message_id)
  have ro: "rounds (Suc n) e client hist = Some (hist @ [AssistantToolCalls ?calls], Raise err)"
    using rs by (simp add: Let_def)
  show ?thesis using rs p b t ro by blast
qed

theorem dispatch_failure_leaves_send_message_witness:
  "foo_request \<in> set (requests_of (handle_stream (bot_callbacks bare_env) ((\<lambda>h. unknown_tool_stream) [UserMessage ''hi''])))
   \<and> tools bare_env (tc_name foo_request) = None
   \<and> (\<exists>d err.
         round_step bare_env [UserMessage ''hi''] ((\<lambda>h. unknown_tool_stream) [UserMessage ''hi'']) =
           \<lparr>history = [UserMessage ''hi''] @ [AssistantToolCalls (requests_of (handle_stream (bot_callbacks bare_env) ((\<lambda>h. unknown_tool_stream) [UserMessage ''hi''])))],
            dispatched = d, result = Raise err\<rparr>
         \<and> d \<noteq> [] \<and> dispatch bare_env (last d) = Inl err
         \<and> list_all (\<lambda>c. \<not> isl (dispatch bare_env c)) (butlast d)
         \<and> d = take (length d) (requests_of (handle_stream (bot_callbacks bare_env) ((\<lambda>h. unknown_tool_stream) [UserMessage ''hi''])))
         \<and> rounds (Suc 0) bare_env (\<lambda>h. unknown_tool_stream) [UserMessage ''hi''] =
             Some ([UserMessage ''hi''] @ [AssistantToolCalls (requests_of (handle_stream (bot_callbacks bare_env) ((\<lambda>h. unknown_tool_stream) [UserMessage ''hi''])))],
                   Raise err))"
proof -
  have m: "foo_request \<in> set (requests_of (handle_stream (bot_callbacks bare_env) ((\<lambda>h. unknown_tool_stream) [UserMessage ''hi''])))"
    by code_simp
  have f: "tools bare_env (tc_name foo_request) = None" by code_simp
  have g: "tools bare_env (tc_name foo_request) = None \<or> isl (dispatch bare_env foo_request)"
    using f by simp
  note r = dispatch_failure_leaves_send_message
    [where e=bare_env and client="\<lambda>h. unknown_tool_stream" and hist="[UserMessage ''hi'']"
       and c=foo_request and n=0, OF m g]
  show ?thesis by (intro conjI, rule m, rule f, rule r)
qed

text \<open>
  C1 as stated fails. With no tool registered, a round that finalizes a request for \<open>foo\<close>
  ends \<open>send_message\<close> with \<open>KeyError\<close>; with a registered tool that raises, with the
  tool's error. In both cases the history ends with the assistant message and holds no
  tool message.
\<close>

theorem dispatch_failure_counterexample:
  "send_message 2 bare_env (\<lambda>h. unknown_tool_stream) [] ''hi'' =
     Some ([UserMessage ''hi'', AssistantToolCalls [foo_request]], Raise (KeyError ''foo''))
   \<and> send_message 2 failing_env (\<lambda>h. unknown_tool_stream) [] ''hi'' =
     Some ([UserMessage ''hi'', AssistantToolCalls [foo_request]], Raise (ToolError ''boom''))"
  by code_simp

text \<open>
  C2, as the code has it. The loop takes the tool branch when requests were emitted
  \<^emph>\<open>or\<close> the last finish reason is \<open>tool_calls\<close>. So a round with that finish reason and no
  request appends an assistant message with an empty list of tool calls, dispatches
  nothing, drops the buffered answer text and starts another round on the extended history.
\<close>

theorem degenerate_round_continues:
  assumes z: "requests_of (handle_stream (bot_callbacks e) (client hist)) = []"
    and t: "round_finish_reason (run_stream e (client hist)) = Some ''tool_calls''"
  shows "round_step e hist (client hist) =
           \<lparr>history = hist @ [AssistantToolCalls []], dispatched = [], result = Continue\<rparr>
         \<and> rounds (Suc n) e client hist = rounds n e client (hist @ [AssistantToolCalls []])"
proof -
  have c: "round_tool_calls (run_stream e (client hist)) = []"
    using z by (simp add: run_stream_tool_calls)
  have r: "round_step e hist (client hist) =
           \<lparr>history = hist @ [AssistantToolCalls []], dispatched = [], result = Continue\<rparr>"
    using c t by (simp add: round_step_def Let_def format_assistant_tool_message_id)
  show ?thesis using r by (simp add: Let_def)
qed

theorem degenerate_round_continues_witness:
  "requests_of (handle_stream (bot_callbacks bare_env) ((\<lambda>h. degenerate_stream) [UserMessage ''hi''])) = []
   \<and> round_finish_reason (run_stream bare_env ((\<lambda>h. degenerate_stream) [UserMessage ''hi''])) = Some ''tool_calls''
   \<and> round_step bare_env [UserMessage ''hi''] ((\<lambda>h. degenerate_stream) [UserMessage ''hi'']) =
       \<lparr>history = [UserMessage ''hi''] @ [AssistantToolCalls []], dispatched = [], result = Continue\<rparr>
   \<and> rounds (Suc 1) bare_env (\<lambda>h. degenerate_stream) [UserMessage ''hi''] =
       rounds 1 bare_env (\<lambda>h. degenerate_stream) ([UserMessage ''hi''] @ [AssistantToolCalls []])"
proof -
  have z: "requests_of (handle_stream (bot_callbacks bare_env) ((\<lambda>h. degenerate_stream) [UserMessage ''hi''])) = []"
    by code_simp
  have t: "round_finish_reason (run_stream bare_env ((\<lambda>h. degenerate_stream) [UserMessage ''hi''])) = Some ''tool_calls''"
    by code_simp
  note r = degenerate_round_continues
    [where e=bare_env and client="\<lambda>h. degenerate_stream" and hist="[UserMessage ''hi'']" and n=1,
     OF z t]
  show ?thesis by (intro conjI, rule z, rule t, rule conjunct1[OF r], rule conjunct2[OF r])
qed

text \<open>
  C2 as stated fails: the round below has the finish reason \<open>tool_calls\<close>, no request and the
  buffered text \<open>partial\<close>. It does not return that text; it continues, and with a transport
  that repeats the stream three rounds of fuel are used up without an answer.
\<close>

theorem degenerate_round_counterexample:
  "requests_of (handle_stream (bot_callbacks bare_env) degenerate_stream) = []
   \<and> round_step bare_env [UserMessage ''hi''] degenerate_stream =
       \<lparr>history = [UserMessage ''hi'', AssistantToolCalls []], dispatched = [], result = Continue\<rparr>
   \<and> send_message 3 bare_env (\<lambda>h. degenerate_stream) [] ''hi'' = None"
  by code_simp

text \<open>
  C7. A chunk whose first choice has the finish reason \<open>tool_calls\<close> emits, after the events
  of its own text, one request for every builder in the order of the dict (creation order),
  then the finish event, and leaves no builder. The loop receives the requests in that
  order; the requests it dispatches are always an initial segment of them, in order; and
  when the round continues, all of them were dispatched and the history is extended by the
  assistant message followed by one tool message per request, the i-th message being that
  of the i-th request.
\<close>

theorem batch_and_dispatch_in_creation_order:
  "(signals_tool_calls ch \<longrightarrow>
      (\<exists>before.
         handle_chunk cb ch tcs =
           (before @ map (\<lambda>builder. ToolCall (to_dict builder)) (map snd (collect_calls tcs 0 (chunk_calls ch)))
              @ (if has_on_finish cb then [Finish ''tool_calls''] else []), [])
         \<and> requests_of before = [] \<and> finishes_of before = []))
   \<and> round_tool_calls (run_stream e stream) = requests_of (handle_stream (bot_callbacks e) stream)
   \<and> dispatched (round_step e hist stream) =
       take (length (dispatched (round_step e hist stream))) (requests_of (handle_stream (bot_callbacks e) stream))
   \<and> (result (round_step e hist stream) = Continue \<longrightarrow>
        dispatched (round_step e hist stream) = requests_of (handle_stream (bot_callbacks e) stream)
        \<and> (\<exists>msgs. history (round_step e hist stream) =
                   hist @ [AssistantToolCalls (requests_of (handle_stream (bot_callbacks e) stream))] @ msgs
                 \<and> list_all2 (\<lambda>c m. \<exists>res. dispatch e c = Inr res \<and> m = tool_message e c res)
                      (requests_of (handle_stream (bot_callbacks e) stream)) msgs))"
proof (intro conjI impI)
  assume s: "signals_tool_calls ch"
  then obtain c others where c: "choices ch = c # others" and f: "finish_reason c = Some ''tool_calls''"
    by (cases "choices ch") (simp_all add: signals_tool_calls_def)
  let ?before = "(if has_on_debug cb then debug_events (choice_delta c) c else [])
                 @ emit_thinking (choice_delta c) c ch @ emit_content (choice_delta c)"
  have h: "handle_chunk cb ch tcs =
           (?before @ map (\<lambda>builder. ToolCall (to_dict builder)) (map snd (collect_calls tcs 0 (chunk_calls ch)))
              @ (if has_on_finish cb then [Finish ''tool_calls''] else []), [])"
    using c f collect_tool_calls_chunk[OF c, of tcs]
    by (simp add: handle_chunk_def Let_def finish_chunk_tool_calls emit_tool_calls_def)
  have r: "requests_of ?before = []"
    by (simp add: requests_of_append requests_of_debug_events requests_of_emit_thinking requests_of_emit_content)
  have n: "finishes_of ?before = []"
    by (simp add: finishes_of_append finishes_of_debug_events finishes_of_emit_thinking finishes_of_emit_content)
  show "\<exists>before.
         handle_chunk cb ch tcs =
           (before @ map (\<lambda>builder. ToolCall (to_dict builder)) (map snd (collect_calls tcs 0 (chunk_calls ch)))
              @ (if has_on_finish cb then [Finish ''tool_calls''] else []), [])
         \<and> requests_of before = [] \<and> finishes_of before = []"
    using h r n by blast
next
  show "round_tool_calls (run_stream e stream) = requests_of (handle_stream (bot_callbacks e) stream)"
    by (rule run_stream_tool_calls)
next
  show "dispatched (round_step e hist stream) =
       take (length (dispatched (round_step e hist stream))) (requests_of (handle_stream (bot_callbacks e) stream))"
    using round_step_order[of e hist stream] by (simp only: run_stream_tool_calls)
next
  assume "result (round_step e hist stream) = Continue"
  from round_step_continue[OF this]
  show "dispatched (round_step e hist stream) = requests_of (handle_stream (bot_callbacks e) stream)"
    by (simp only: run_stream_tool_calls)
next
  assume "result (round_step e hist stream) = Continue"
  from round_step_continue[OF this]
  show "\<exists>msgs. history (round_step e hist stream) =
                   hist @ [AssistantToolCalls (requests_of (handle_stream (bot_callbacks e) stream))] @ msgs
                 \<and> list_all2 (\<lambda>c m. \<exists>res. dispatch e c = Inr res \<and> m = tool_message e c res)
                      (requests_of (handle_stream (bot_callbacks e) stream)) msgs"
    by (simp only: run_stream_tool_calls)
qed

theorem batch_and_dispatch_in_creation_order_witness:
  "signals_tool_calls two_calls_chunk
   \<and> (\<exists>before.
         handle_chunk plain_callbacks two_calls_chunk [] =
           (before @ map (\<lambda>builder. ToolCall (to_dict builder)) (map snd (collect_calls [] 0 (chunk_calls two_calls_chunk)))
              @ (if has_on_finish plain_callbacks then [Finish ''tool_calls''] else []), [])
         \<and> requests_of before = [] \<and> finishes_of before = [])
   \<and> result (round_step two_tool_env [] [two_calls_chunk]) = Continue
   \<and> dispatched (round_step two_tool_env [] [two_calls_chunk]) = [request_a, request_b]
   \<and> history (round_step two_tool_env [] [two_calls_chunk]) =
       [AssistantToolCalls [request_a, request_b],
        ToolMessage ''a'' ''get_risk'' ''{}'', ToolMessage ''b'' ''other'' ''{}'']"
proof -
  note t = batch_and_dispatch_in_creation_order[of two_calls_chunk plain_callbacks "[]" two_tool_env "[two_calls_chunk]" "[]"]
  have s: "signals_tool_calls two_calls_chunk" by code_simp
  have c: "result (round_step two_tool_env [] [two_calls_chunk]) = Continue" by code_simp
  have r: "requests_of (handle_stream (bot_callbacks two_tool_env) [two_calls_chunk]) = [request_a, request_b]"
    by code_simp
  have h: "history (round_step two_tool_env [] [two_calls_chunk]) =
       [AssistantToolCalls [request_a, request_b],
        ToolMessage ''a'' ''get_risk'' ''{}'', ToolMessage ''b'' ''other'' ''{}'']"
    by code_simp
  have d: "dispatched (round_step two_tool_env [] [two_calls_chunk]) = [request_a, request_b]"
    using t c r by simp
  have b: "\<exists>before.
         handle_chunk plain_callbacks two_calls_chunk [] =
           (before @ map (\<lambda>builder. ToolCall (to_dict builder)) (map snd (collect_calls [] 0 (chunk_calls two_calls_chunk)))
              @ (if has_on_finish plain_callbacks then [Finish ''tool_calls''] else []), [])
         \<and> requests_of before = [] \<and> finishes_of before = []"
    using t s by blast
  show ?thesis using s b c d h by blast
qed

text \<open>
  C8. If no chunk of the round's stream has a first choice with the finish reason
  \<open>tool_calls\<close>, the handler emits no request, whatever tool-call fragments arrived, and the
  loop takes the final branch: nothing is dispatched, the buffered answer text is appended
  as the assistant message and returned.
\<close>

theorem no_dispatch_without_tool_calls_reason:
  assumes "\<not> list_ex signals_tool_calls stream"
  shows "requests_of (handle_stream cb stream) = []
         \<and> round_step e hist stream =
             \<lparr>history = hist @ [AssistantMessage (concat (contents_of (handle_stream (bot_callbacks e) stream)))],
              dispatched = [],
              result = Return (concat (contents_of (handle_stream (bot_callbacks e) stream)))\<rparr>"
proof -
  have a: "requests_of (handle_stream cb stream) = []"
    using handle_chunks_no_signal[OF assms, of cb "[]"] by (simp add: handle_stream_def)
  have b: "round_tool_calls (run_stream e stream) = []"
    using handle_chunks_no_signal[OF assms, of "bot_callbacks e" "[]"]
    by (simp add: run_stream_tool_calls handle_stream_def)
  have n: "''tool_calls'' \<notin> set (finishes_of (handle_stream (bot_callbacks e) stream))"
    using handle_chunks_no_signal[OF assms, of "bot_callbacks e" "[]"] by (simp add: handle_stream_def)
  have c: "round_finish_reason (run_stream e stream) \<noteq> Some ''tool_calls''"
  proof (cases "finishes_of (handle_stream (bot_callbacks e) stream) = []")
    case True
    then show ?thesis by (simp add: run_stream_finish)
  next
    case False
    then have "last (finishes_of (handle_stream (bot_callbacks e) stream))
               \<in> set (finishes_of (handle_stream (bot_callbacks e) stream))" by (rule last_in_set)
    then have "last (finishes_of (handle_stream (bot_callbacks e) stream)) \<noteq> ''tool_calls''"
      using n by metis
    then show ?thesis using False by (simp add: run_stream_finish)
  qed
  show ?thesis using a b c by (simp add: round_step_def Let_def run_stream_chunks)
qed

theorem no_dispatch_without_tool_calls_reason_witness:
  "\<not> list_ex signals_tool_calls stray_stream
   \<and> stream_calls stray_stream \<noteq> []
   \<and> requests_of (handle_stream plain_callbacks stray_stream) = []
   \<and> round_step bare_env [UserMessage ''hi''] stray_stream =
       \<lparr>history = [UserMessage ''hi'', AssistantMessage ''hello world''],
        dispatched = [], result = Return ''hello world''\<rparr>"
proof -
  have n: "\<not> list_ex signals_tool_calls stray_stream" by code_simp
  have f: "stream_calls stray_stream \<noteq> []" by code_simp
  have a: "concat (contents_of (handle_stream (bot_callbacks bare_env) stray_stream)) = ''hello world''"
    by code_simp
  show ?thesis
    using n f no_dispatch_without_tool_calls_reason[OF n, of plain_callbacks bare_env "[UserMessage ''hi'']"]
    by (simp add: a)
qed

text \<open>
  C10. The handler reads \<open>chunk.choices[0]\<close> only: the result of the loop body does not
  depend on the choices after the first, so a stream and the same stream with every further
  choice removed give the same events. A chunk without choices changes nothing and emits
  nothing but the debug message, and that only when \<open>on_debug\<close> is set.
\<close>

theorem only_first_choice_inspected:
  "handle_chunk cb (ch\<lparr>choices := c # others\<rparr>) tcs = handle_chunk cb (ch\<lparr>choices := [c]\<rparr>) tcs
   \<and> handle_stream cb (map first_choice_only stream) = handle_stream cb stream
   \<and> handle_chunk cb (ch\<lparr>choices := []\<rparr>) tcs = ((if has_on_debug cb then [Debug NoChoices] else []), tcs)"
proof (intro conjI)
  show "handle_chunk cb (ch\<lparr>choices := c # others\<rparr>) tcs = handle_chunk cb (ch\<lparr>choices := [c]\<rparr>) tcs"
    by (rule handle_chunk_choices)
  show "handle_stream cb (map first_choice_only stream) = handle_stream cb stream"
    by (simp add: handle_stream_def handle_chunks_first_choice)
  show "handle_chunk cb (ch\<lparr>choices := []\<rparr>) tcs = ((if has_on_debug cb then [Debug NoChoices] else []), tcs)"
    by (simp add: handle_chunk_def)
qed

end
